theory Spec2Isabelle
  imports Complex_Main "HOL-Library.Product_Lexorder"
begin

section \<open>Data model\<close>

text \<open>
  The class \<open>MovingAverage\<close> of \<open>backtrack_large_window_to_csv.py\<close>.  Python floats are
  modelled as exact rationals (rounding is not modelled), Python ints as \<open>int\<close>.  A sample
  is the tuple \<open>(timestamp, value)\<close>.  The CSV log (\<open>log_file\<close>, \<open>csv_writer\<close>) only
  observes the computation and is left out.
\<close>

type_synonym sample = "rat \<times> rat"

datatype error = IndexError

record engine =
  num_bin :: int
  window :: rat
  data :: "sample list"
  current_timestamp :: "rat option"

definition init :: "int \<Rightarrow> rat \<Rightarrow> engine" where
  "init nb w = \<lparr>num_bin = nb, window = w, data = [], current_timestamp = None\<rparr>"

section \<open>Calendar\<close>

text \<open>
  \<open>datetime.fromtimestamp\<close> and \<open>datetime.timestamp\<close> use the local time zone of the
  machine.  The zone is a parameter \<open>tz\<close>: a constant offset from UTC in whole seconds.
  Local time is split into the day number since 1970-01-01 and the seconds since local
  midnight; 1970-01-01 was a Thursday, \<open>weekday()\<close> 3.  The rounding of
  \<open>fromtimestamp\<close> to microseconds and its range errors for years outside 1 to 9999 are
  not modelled.
\<close>

definition local_day :: "int \<Rightarrow> rat \<Rightarrow> int" where
  "local_day tz t = \<lfloor>(t + of_int tz) / 86400\<rfloor>"

definition time_of_day :: "int \<Rightarrow> rat \<Rightarrow> rat" where
  "time_of_day tz t = t + of_int tz - of_int (local_day tz t * 86400)"

definition weekday :: "int \<Rightarrow> int" where
  "weekday d = (d + 3) mod 7"

definition hour :: "int \<Rightarrow> rat \<Rightarrow> int" where
  "hour tz t = \<lfloor>time_of_day tz t / 3600\<rfloor>"

text \<open>\<open>datetime.strptime(f"{date} {hh:mm:ss}", ...).timestamp()\<close> for day \<open>d\<close> and \<open>s\<close>
  seconds after local midnight.\<close>

definition local_timestamp :: "int \<Rightarrow> int \<Rightarrow> rat \<Rightarrow> rat" where
  "local_timestamp tz d s = of_int (d * 86400) + s - of_int tz"

text \<open>The dictionary \<open>trading_hours\<close>, as seconds after midnight.\<close>

definition morning_start :: rat where "morning_start = 34200"
definition morning_end :: rat where "morning_end = 41400"
definition afternoon_start :: rat where "afternoon_start = 46800"
definition afternoon_end :: rat where "afternoon_end = 54000"

definition is_trading_time :: "int \<Rightarrow> rat \<Rightarrow> bool" where
  "is_trading_time tz t =
     (if weekday (local_day tz t) \<ge> 5 then False
      else (morning_start \<le> time_of_day tz t \<and> time_of_day tz t \<le> morning_end)
         \<or> (afternoon_start \<le> time_of_day tz t \<and> time_of_day tz t \<le> afternoon_end))"

section \<open>Update\<close>

text \<open>\<open>int(n * f)\<close> for an integer \<open>n\<close> and the fraction \<open>f = a / b\<close>: truncation towards
  zero.  For the constants 0.2, 0.5, 0.1 and 0.3 of \<open>Update\<close> the floating-point product
  truncates to the same integer as the exact one.\<close>

definition int_of_scaled :: "int \<Rightarrow> int \<Rightarrow> int \<Rightarrow> int" where
  "int_of_scaled n a b = (if 0 \<le> n then n * a div b else - ((- n) * a div b))"

text \<open>
  \<open>[part[i * len(part) // keep] for i in range(keep)]\<close>, and the empty list for an empty
  part.  \<open>range(keep)\<close> is empty for \<open>keep \<le> 0\<close>, so the division only runs with a
  positive \<open>keep\<close>.
\<close>

definition sample_part :: "'a list \<Rightarrow> int \<Rightarrow> 'a list" where
  "sample_part part keep =
     (if part = [] then []
      else map (\<lambda>i. part ! (i * length part div nat keep)) [0..<nat keep])"

definition resample :: "int \<Rightarrow> sample list \<Rightarrow> sample list" where
  "resample nb dat =
     (let data_length = int (length dat);
          sorted_data = sort_key fst dat;
          early_end = nat (int_of_scaled data_length 2 10);
          mid_end = nat (int_of_scaled data_length 5 10);
          early_keep = max 1 (int_of_scaled nb 1 10);
          mid_keep = max 1 (int_of_scaled nb 3 10);
          recent_keep = nb - early_keep - mid_keep;
          early_sampled = sample_part (take early_end sorted_data) early_keep;
          mid_sampled = sample_part (drop early_end (take mid_end sorted_data)) mid_keep;
          recent_sampled = sample_part (drop mid_end sorted_data) recent_keep
      in early_sampled @ mid_sampled @ recent_sampled)"

text \<open>\<open>Update\<close>: the assignment \<open>self.data[-1] = ...\<close> raises \<open>IndexError\<close> on an empty
  list.\<close>

definition Update :: "engine \<Rightarrow> rat \<Rightarrow> rat \<Rightarrow> error + engine" where
  "Update st timestamp val =
     (let dat = data st @ [(timestamp, val)];
          st1 = st\<lparr>current_timestamp := Some timestamp, data := dat\<rparr>
      in if int (length dat) > num_bin st then
           (let sorted_data = sort_key fst dat;
                new = resample (num_bin st) dat
            in if last sorted_data \<notin> set new then
                 (if new = [] then Inl IndexError
                  else Inr (st1\<lparr>data := butlast new @ [last sorted_data]\<rparr>))
               else Inr (st1\<lparr>data := new\<rparr>))
         else Inr st1)"

text \<open>A sequence of \<open>Update\<close> calls; an exception ends the run.\<close>

fun Updates :: "engine \<Rightarrow> sample list \<Rightarrow> error + engine" where
  "Updates st [] = Inr st"
| "Updates st ((timestamp, val) # rest) =
     (case Update st timestamp val of Inl e \<Rightarrow> Inl e | Inr st' \<Rightarrow> Updates st' rest)"

section \<open>Price lookup\<close>

text \<open>The first loop of \<open>_find_price_at_time\<close>: the first sample within 0.1 s.\<close>

fun exact_match :: "sample list \<Rightarrow> rat \<Rightarrow> rat option" where
  "exact_match [] t = None"
| "exact_match ((ts, price) # rest) t =
     (if \<bar>ts - t\<bar> < 1 / 10 then Some price else exact_match rest t)"

text \<open>The second loop: the last sample before the first one later than \<open>t\<close>.\<close>

fun scan_prev :: "sample list \<Rightarrow> rat \<Rightarrow> sample option \<Rightarrow> sample option" where
  "scan_prev [] t prev = prev"
| "scan_prev ((ts, price) # rest) t prev =
     (if ts > t then prev else scan_prev rest t (Some (ts, price)))"

definition find_price_at_time :: "sample list \<Rightarrow> rat \<Rightarrow> rat \<Rightarrow> rat" where
  "find_price_at_time dat timestamp default_price =
     (if dat = [] then default_price
      else case exact_match dat timestamp of
        Some price \<Rightarrow> price
      | None \<Rightarrow>
          (let sorted_data = sort dat
           in if timestamp < fst (hd sorted_data) then 0
              else case scan_prev sorted_data timestamp None of
                Some (prev_ts, prev_price) \<Rightarrow> prev_price
              | None \<Rightarrow> 0))"

section \<open>GetSMA\<close>

text \<open>The loop \<open>while prev_day.weekday() >= 5: prev_day -= timedelta(days=1)\<close>.\<close>

function skip_weekend :: "int \<Rightarrow> int" where
  "skip_weekend d = (if weekday d \<ge> 5 then skip_weekend (d - 1) else d)"
  by pat_completeness auto
termination
  by (relation "measure (\<lambda>d. nat (weekday d))") (auto simp: weekday_def, presburger)

text \<open>15:00:00 of the trading day before the day of \<open>t\<close>.\<close>

definition prev_day_close :: "int \<Rightarrow> rat \<Rightarrow> rat" where
  "prev_day_close tz t = local_timestamp tz (skip_weekend (local_day tz t - 1)) afternoon_end"

text \<open>
  \<open>jump_to_time\<close> of the first loop, for the cursor \<open>t\<close> after the decrement: \<open>None\<close>
  when neither branch is taken.
\<close>

definition jump_to_time :: "int \<Rightarrow> rat \<Rightarrow> rat option" where
  "jump_to_time tz t =
     (if 11 \<le> hour tz t \<and> hour tz t < 13
        then Some (local_timestamp tz (local_day tz t) morning_end)
      else if hour tz t < 9 \<or> hour tz t \<ge> 15
        then Some (prev_day_close tz t)
      else None)"

text \<open>\<open>jump_to_time\<close> of the second loop: it has the overnight branch only.\<close>

definition jump_to_time2 :: "int \<Rightarrow> rat \<Rightarrow> rat option" where
  "jump_to_time2 tz t =
     (if hour tz t < 9 \<or> hour tz t \<ge> 15 then Some (prev_day_close tz t) else None)"

text \<open>The end of a loop body: \<open>check_time -= 1\<close>, then the jump when the new cursor is not
  a trading instant and positive.\<close>

definition move_back :: "(rat \<Rightarrow> rat option) \<Rightarrow> int \<Rightarrow> rat \<Rightarrow> rat" where
  "move_back jump tz check_time =
     (let c = check_time - 1
      in if \<not> is_trading_time tz c \<and> c > 0 then
           (case jump c of
              Some target \<Rightarrow> if target < c then target else c
            | None \<Rightarrow> c)
         else c)"

text \<open>The accumulation of a loop body: \<open>(total_price, valid_points_count)\<close>.\<close>

definition accumulate :: "int \<Rightarrow> sample list \<Rightarrow> rat \<Rightarrow> rat \<Rightarrow> rat \<times> nat \<Rightarrow> rat \<times> nat" where
  "accumulate tz dat current_price check_time acc =
     (if is_trading_time tz check_time then
        (let price = find_price_at_time dat check_time current_price
         in if price > 0 then (fst acc + price, snd acc + 1) else acc)
      else acc)"

lemma move_back_le: "move_back jump tz c \<le> c - 1"
  by (simp add: move_back_def Let_def split: option.split)

lemma move_back_floor: "\<lfloor>move_back jump tz c\<rfloor> + 1 \<le> \<lfloor>c\<rfloor>"
proof -
  have "\<lfloor>move_back jump tz c\<rfloor> \<le> \<lfloor>c - 1\<rfloor>"
    using move_back_le by (rule floor_mono)
  then show ?thesis by simp
qed

text \<open>The first loop: \<open>while check_time >= window_start and check_time >= 0\<close>.\<close>

function primary_walk ::
  "int \<Rightarrow> sample list \<Rightarrow> rat \<Rightarrow> rat \<Rightarrow> rat \<Rightarrow> rat \<times> nat \<Rightarrow> rat \<times> nat" where
  "primary_walk tz dat current_price window_start check_time acc =
     (if check_time \<ge> window_start \<and> check_time \<ge> 0 then
        primary_walk tz dat current_price window_start
          (move_back (jump_to_time tz) tz check_time)
          (accumulate tz dat current_price check_time acc)
      else acc)"
  by pat_completeness auto
termination
  by (relation "measure (\<lambda>(tz, dat, cp, ws, c, acc). nat (\<lfloor>c\<rfloor> + 1))")
     (auto simp: move_back_floor)

text \<open>The second loop: \<open>while check_time >= 0 and remaining_seconds > 0\<close>.\<close>

function second_walk ::
  "int \<Rightarrow> sample list \<Rightarrow> rat \<Rightarrow> rat \<Rightarrow> rat \<Rightarrow> rat \<times> nat \<Rightarrow> rat \<times> nat" where
  "second_walk tz dat current_price check_time remaining_seconds acc =
     (if check_time \<ge> 0 \<and> remaining_seconds > 0 then
        second_walk tz dat current_price
          (move_back (jump_to_time2 tz) tz check_time)
          (if is_trading_time tz check_time then remaining_seconds - 1 else remaining_seconds)
          (accumulate tz dat current_price check_time acc)
      else acc)"
  by pat_completeness auto
termination
  by (relation "measure (\<lambda>(tz, dat, cp, c, r, acc). nat (\<lfloor>c\<rfloor> + 1))")
     (auto simp: move_back_floor)

text \<open>The second loop with the values of \<open>check_time\<close> and \<open>remaining_seconds\<close> at its
  exit.\<close>

function second_walk_end ::
  "int \<Rightarrow> sample list \<Rightarrow> rat \<Rightarrow> rat \<Rightarrow> rat \<Rightarrow> rat \<times> nat \<Rightarrow> rat \<times> rat \<times> rat \<times> nat" where
  "second_walk_end tz dat current_price check_time remaining_seconds acc =
     (if check_time \<ge> 0 \<and> remaining_seconds > 0 then
        second_walk_end tz dat current_price
          (move_back (jump_to_time2 tz) tz check_time)
          (if is_trading_time tz check_time then remaining_seconds - 1 else remaining_seconds)
          (accumulate tz dat current_price check_time acc)
      else (check_time, remaining_seconds, acc))"
  by pat_completeness auto
termination
  by (relation "measure (\<lambda>(tz, dat, cp, c, r, acc). nat (\<lfloor>c\<rfloor> + 1))")
     (auto simp: move_back_floor)

declare skip_weekend.simps [simp del] primary_walk.simps [simp del] second_walk.simps [simp del]
  second_walk_end.simps [simp del]

text \<open>
  \<open>GetSMA\<close>.  \<open>not self.current_timestamp\<close> holds for \<open>None\<close> and for the timestamp 0.
  The session label of \<open>now\<close> is \<open>"morning"\<close> for an hour below 12 and \<open>"afternoon"\<close>
  otherwise.
\<close>

definition is_afternoon_session :: "int \<Rightarrow> rat \<Rightarrow> bool" where
  "is_afternoon_session tz now = (\<not> hour tz now < 12)"

definition continue_walk ::
  "int \<Rightarrow> sample list \<Rightarrow> rat \<Rightarrow> rat \<Rightarrow> rat \<Rightarrow> rat \<times> nat \<Rightarrow> rat \<times> nat" where
  "continue_walk tz dat current_price now w acc =
     (if is_afternoon_session tz now \<and> of_nat (snd acc) < w then
        second_walk tz dat current_price
          (local_timestamp tz (local_day tz now) morning_end)
          (w - of_nat (snd acc)) acc
      else acc)"

definition sma_of :: "rat \<times> nat \<Rightarrow> rat" where
  "sma_of acc = (if snd acc > 0 then fst acc / of_nat (snd acc) else 0)"

definition GetSMA :: "int \<Rightarrow> engine \<Rightarrow> rat" where
  "GetSMA tz st =
     (case current_timestamp st of
        None \<Rightarrow> 0
      | Some now \<Rightarrow>
          if now = 0 then 0
          else
            (let window_start = now - window st;
                 current_price = (if data st = [] then 100 else snd (last (data st)));
                 acc = primary_walk tz (data st) current_price window_start now (0, 0)
             in sma_of (continue_walk tz (data st) current_price now (window st) acc)))"

definition Get :: "int \<Rightarrow> engine \<Rightarrow> rat" where
  "Get tz st = GetSMA tz st"

text \<open>
  The two loops with a bound on the number of iterations: \<open>None\<close> when the bound is
  used up before the loop condition fails.
\<close>

fun primary_walk_fuel ::
  "nat \<Rightarrow> int \<Rightarrow> sample list \<Rightarrow> rat \<Rightarrow> rat \<Rightarrow> rat \<Rightarrow> rat \<times> nat \<Rightarrow> (rat \<times> nat) option" where
  "primary_walk_fuel 0 tz dat current_price window_start check_time acc = None"
| "primary_walk_fuel (Suc n) tz dat current_price window_start check_time acc =
     (if check_time \<ge> window_start \<and> check_time \<ge> 0 then
        primary_walk_fuel n tz dat current_price window_start
          (move_back (jump_to_time tz) tz check_time)
          (accumulate tz dat current_price check_time acc)
      else Some acc)"

fun second_walk_fuel ::
  "nat \<Rightarrow> int \<Rightarrow> sample list \<Rightarrow> rat \<Rightarrow> rat \<Rightarrow> rat \<Rightarrow> rat \<times> nat \<Rightarrow> (rat \<times> nat) option" where
  "second_walk_fuel 0 tz dat current_price check_time remaining_seconds acc = None"
| "second_walk_fuel (Suc n) tz dat current_price check_time remaining_seconds acc =
     (if check_time \<ge> 0 \<and> remaining_seconds > 0 then
        second_walk_fuel n tz dat current_price
          (move_back (jump_to_time2 tz) tz check_time)
          (if is_trading_time tz check_time then remaining_seconds - 1 else remaining_seconds)
          (accumulate tz dat current_price check_time acc)
      else Some acc)"

section \<open>The algorithm as the specification words it\<close>

text \<open>
  The instant \<open>now\<close> falls in the Afternoon session: a weekday instant with local time in
  [13:00:00, 15:00:00].
\<close>

definition in_afternoon_session :: "int \<Rightarrow> rat \<Rightarrow> bool" where
  "in_afternoon_session tz now =
     (weekday (local_day tz now) < 5
      \<and> afternoon_start \<le> time_of_day tz now \<and> time_of_day tz now \<le> afternoon_end)"

text \<open>
  A second walk with the trading test, the price resolution and the jump logic of the
  first walk (\<open>jump_to_time\<close>, with both branches), stopping once the budget of trading
  instants is used up or the cursor is below 0.
\<close>

function budget_walk ::
  "int \<Rightarrow> sample list \<Rightarrow> rat \<Rightarrow> rat \<Rightarrow> rat \<Rightarrow> rat \<times> nat \<Rightarrow> rat \<times> nat" where
  "budget_walk tz dat current_price check_time remaining_seconds acc =
     (if check_time \<ge> 0 \<and> remaining_seconds > 0 then
        budget_walk tz dat current_price
          (move_back (jump_to_time tz) tz check_time)
          (if is_trading_time tz check_time then remaining_seconds - 1 else remaining_seconds)
          (accumulate tz dat current_price check_time acc)
      else acc)"
  by pat_completeness auto
termination
  by (relation "measure (\<lambda>(tz, dat, cp, c, r, acc). nat (\<lfloor>c\<rfloor> + 1))")
     (auto simp: move_back_floor)

declare budget_walk.simps [simp del]

text \<open>
  \<open>Compute\<close> with a continuation trigger \<open>trigger\<close> on \<open>now\<close>: the first walk, then, when
  the trigger holds and the count is below the window, the second walk from 11:30:00 of
  the day of \<open>now\<close> with the budget \<open>window - count\<close>.
\<close>

definition compute_with :: "(int \<Rightarrow> rat \<Rightarrow> bool) \<Rightarrow> int \<Rightarrow> engine \<Rightarrow> rat" where
  "compute_with trigger tz st =
     (case current_timestamp st of
        None \<Rightarrow> 0
      | Some now \<Rightarrow>
          if now = 0 then 0
          else
            (let current_price = (if data st = [] then 100 else snd (last (data st)));
                 acc = primary_walk tz (data st) current_price (now - window st) now (0, 0)
             in sma_of
                  (if trigger tz now \<and> of_nat (snd acc) < window st then
                     budget_walk tz (data st) current_price
                       (local_timestamp tz (local_day tz now) morning_end)
                       (window st - of_nat (snd acc)) acc
                   else acc)))"

text \<open>
  The trailing window: the seconds \<open>now\<close>, \<open>now - 1\<close>, ... down to \<open>now - w\<close>; the resolved
  prices of its trading seconds, those resolving to the 0 sentinel left out; and their
  arithmetic mean, 0 when there is none.
\<close>

definition window_seconds :: "rat \<Rightarrow> rat \<Rightarrow> rat list" where
  "window_seconds now w = map (\<lambda>k. now - of_nat k) [0..<nat (\<lfloor>w\<rfloor> + 1)]"

definition window_prices :: "int \<Rightarrow> sample list \<Rightarrow> rat \<Rightarrow> rat \<Rightarrow> rat \<Rightarrow> rat list" where
  "window_prices tz dat fallback now w =
     filter (\<lambda>price. price \<noteq> 0)
       (map (\<lambda>t. find_price_at_time dat t fallback)
          (filter (is_trading_time tz) (window_seconds now w)))"

definition window_mean :: "int \<Rightarrow> sample list \<Rightarrow> rat \<Rightarrow> rat \<Rightarrow> rat \<Rightarrow> rat" where
  "window_mean tz dat fallback now w =
     (let prices = window_prices tz dat fallback now w
      in if prices = [] then 0 else sum_list prices / of_nat (length prices))"

section \<open>Whole-second cursors and the plain sweep\<close>

text \<open>A cursor on a whole second with local time of day in [09:00:00, 15:00:00].\<close>

definition on_grid :: "int \<Rightarrow> rat \<Rightarrow> bool" where
  "on_grid tz c =
     (of_int \<lfloor>time_of_day tz c\<rfloor> = time_of_day tz c
      \<and> 32400 \<le> time_of_day tz c \<and> time_of_day tz c \<le> 54000)"

definition aligned :: "int \<Rightarrow> rat \<Rightarrow> bool" where
  "aligned tz c = (c \<le> 0 \<or> on_grid tz c)"

text \<open>The accumulation over the \<open>n\<close> seconds \<open>c\<close>, \<open>c - 1\<close>, ..., with no jump.\<close>

fun sweep :: "int \<Rightarrow> sample list \<Rightarrow> rat \<Rightarrow> nat \<Rightarrow> rat \<Rightarrow> rat \<times> nat \<Rightarrow> rat \<times> nat" where
  "sweep tz dat cp 0 c acc = acc"
| "sweep tz dat cp (Suc n) c acc = sweep tz dat cp n (c - 1) (accumulate tz dat cp c acc)"

text \<open>
  A cursor on a whole second; a cursor with local time of day in [00:00:01, 15:00:01];
  and the session close the first walk reaches first when stepping back from a cursor:
  11:30:00 of its day when its local time of day is in (11:30:01, 15:00:01], else 15:00:00
  of the trading day before the day of the second before it.
\<close>

definition whole_second :: "int \<Rightarrow> rat \<Rightarrow> bool" where
  "whole_second tz c = (of_int \<lfloor>time_of_day tz c\<rfloor> = time_of_day tz c)"

definition in_walk_range :: "int \<Rightarrow> rat \<Rightarrow> bool" where
  "in_walk_range tz c = (1 \<le> time_of_day tz c \<and> time_of_day tz c \<le> 54001)"

definition next_close :: "int \<Rightarrow> rat \<Rightarrow> rat" where
  "next_close tz c =
     (if 41401 < time_of_day tz c \<and> time_of_day tz c \<le> 54001
      then local_timestamp tz (local_day tz c) morning_end
      else prev_day_close tz (c - 1))"

text \<open>
  The first jump from a cursor loses no trading second of a window starting at \<open>ws\<close>: the
  cursor is in [00:00:01, 15:00:01], or the second before it falls on a Saturday or
  Sunday, or the window starts after 15:00:00 of the day of that second.
\<close>

definition first_jump_safe :: "int \<Rightarrow> rat \<Rightarrow> rat \<Rightarrow> bool" where
  "first_jump_safe tz ws c =
     (in_walk_range tz c \<or> 5 \<le> weekday (local_day tz (c - 1))
      \<or> local_timestamp tz (local_day tz (c - 1)) afternoon_end < ws)"

definition walk_inv :: "int \<Rightarrow> rat \<Rightarrow> rat \<Rightarrow> bool" where
  "walk_inv tz ws c =
     (c \<le> 0
      \<or> (first_jump_safe tz ws c \<and> (whole_second tz c \<or> next_close tz c < ws)))"

section \<open>Price lookup: properties\<close>






section \<open>The zero timestamp\<close>

lemma Update_current_timestamp:
  "Update st ts v = Inr st' \<Longrightarrow> current_timestamp st' = Some ts"
  by (auto simp: Update_def Let_def split: if_splits)

text \<open>
  C10: when the most recent \<open>Update\<close> carried the timestamp 0, \<open>Get\<close> returns 0 whatever
  the stored samples, the window and the time zone are.
\<close>

theorem C10_zero_timestamp:
  "Update st 0 v = Inr st' \<Longrightarrow> Get tz st' = 0"
  by (simp add: Get_def GetSMA_def Update_current_timestamp)

theorem C10_zero_timestamp_witness:
  "Update (init 10 60) 0 100 = Inr \<lparr>num_bin = 10, window = 60, data = [(0, 100)],
      current_timestamp = Some 0\<rparr>
   \<and> Get (- 36000) \<lparr>num_bin = 10, window = 60, data = [(0, 100)],
      current_timestamp = Some 0\<rparr> = 0"
proof -
  have u: "Update (init 10 60) 0 100 = Inr \<lparr>num_bin = 10, window = 60, data = [(0, 100)],
      current_timestamp = Some 0\<rparr>"
    by (simp add: Update_def init_def)
  show ?thesis
    using u C10_zero_timestamp [OF u, of "- 36000"] by simp
qed

section \<open>Termination of the two walks\<close>

lemma move_back_cases:
  "move_back jump tz c = c - 1
   \<or> (\<exists>target. jump (c - 1) = Some target \<and> target < c - 1 \<and> move_back jump tz c = target)"
  by (simp add: move_back_def Let_def split: option.split)

lemma primary_walk_step:
  "ws \<le> c \<Longrightarrow> 0 \<le> c \<Longrightarrow>
   primary_walk tz dat cp ws c acc =
     primary_walk tz dat cp ws (move_back (jump_to_time tz) tz c) (accumulate tz dat cp c acc)"
  by (subst primary_walk.simps) simp

lemma primary_walk_stop:
  "\<not> (ws \<le> c \<and> 0 \<le> c) \<Longrightarrow> primary_walk tz dat cp ws c acc = acc"
  by (subst primary_walk.simps) (rule if_not_P)

lemma second_walk_step:
  "0 \<le> c \<Longrightarrow> 0 < r \<Longrightarrow>
   second_walk tz dat cp c r acc =
     second_walk tz dat cp (move_back (jump_to_time2 tz) tz c)
       (if is_trading_time tz c then r - 1 else r) (accumulate tz dat cp c acc)"
  by (subst second_walk.simps) simp

lemma second_walk_stop:
  "\<not> (0 \<le> c \<and> 0 < r) \<Longrightarrow> second_walk tz dat cp c r acc = acc"
  by (subst second_walk.simps) (rule if_not_P)

lemma primary_walk_fuel_enough:
  "nat (\<lfloor>c\<rfloor> + 1) < fuel \<Longrightarrow>
   primary_walk_fuel fuel tz dat cp ws c acc = Some (primary_walk tz dat cp ws c acc)"
proof (induction fuel arbitrary: c acc)
  case 0
  then show ?case by simp
next
  case (Suc n)
  show ?case
  proof (cases "ws \<le> c \<and> 0 \<le> c")
    case True
    then have "0 \<le> \<lfloor>c\<rfloor>" by simp
    then have "nat (\<lfloor>move_back (jump_to_time tz) tz c\<rfloor> + 1) < n"
      using Suc.prems move_back_floor [of "jump_to_time tz" tz c] by linarith
    then have "primary_walk_fuel n tz dat cp ws (move_back (jump_to_time tz) tz c)
        (accumulate tz dat cp c acc)
      = Some (primary_walk tz dat cp ws (move_back (jump_to_time tz) tz c)
          (accumulate tz dat cp c acc))"
      by (rule Suc.IH)
    then show ?thesis
      using True by (simp add: primary_walk_step)
  next
    case False
    have "primary_walk_fuel (Suc n) tz dat cp ws c acc = Some acc"
      using False by auto
    moreover have "primary_walk tz dat cp ws c acc = acc"
      using False by (rule primary_walk_stop)
    ultimately show ?thesis by simp
  qed
qed

lemma second_walk_fuel_enough:
  "nat (\<lfloor>c\<rfloor> + 1) < fuel \<Longrightarrow>
   second_walk_fuel fuel tz dat cp c r acc = Some (second_walk tz dat cp c r acc)"
proof (induction fuel arbitrary: c r acc)
  case 0
  then show ?case by simp
next
  case (Suc n)
  show ?case
  proof (cases "0 \<le> c \<and> 0 < r")
    case True
    then have "0 \<le> \<lfloor>c\<rfloor>" by simp
    then have "nat (\<lfloor>move_back (jump_to_time2 tz) tz c\<rfloor> + 1) < n"
      using Suc.prems move_back_floor [of "jump_to_time2 tz" tz c] by linarith
    then have "second_walk_fuel n tz dat cp (move_back (jump_to_time2 tz) tz c)
        (if is_trading_time tz c then r - 1 else r) (accumulate tz dat cp c acc)
      = Some (second_walk tz dat cp (move_back (jump_to_time2 tz) tz c)
          (if is_trading_time tz c then r - 1 else r) (accumulate tz dat cp c acc))"
      by (rule Suc.IH)
    then show ?thesis
      using True by (simp add: second_walk_step)
  next
    case False
    have "second_walk_fuel (Suc n) tz dat cp c r acc = Some acc"
      using False by auto
    moreover have "second_walk tz dat cp c r acc = acc"
      using False by (rule second_walk_stop)
    ultimately show ?thesis by simp
  qed
qed

text \<open>
  C9: both walks terminate for every snapshot, cursor and window.  Every iteration moves
  the cursor back by at least one second; the cursor is replaced by a jump target only
  when the target is strictly less than the decremented cursor; and a number of
  iterations above the whole seconds of the starting cursor is enough for each loop to
  return.
\<close>

theorem C9_walks_terminate:
  "move_back (jump_to_time tz) tz c \<le> c - 1
   \<and> move_back (jump_to_time2 tz) tz c \<le> c - 1
   \<and> (move_back (jump_to_time tz) tz c = c - 1
      \<or> (\<exists>target. jump_to_time tz (c - 1) = Some target \<and> target < c - 1
            \<and> move_back (jump_to_time tz) tz c = target))
   \<and> (move_back (jump_to_time2 tz) tz c = c - 1
      \<or> (\<exists>target. jump_to_time2 tz (c - 1) = Some target \<and> target < c - 1
            \<and> move_back (jump_to_time2 tz) tz c = target))
   \<and> primary_walk_fuel (nat (\<lfloor>c\<rfloor> + 1) + 1) tz dat cp ws c acc
        = Some (primary_walk tz dat cp ws c acc)
   \<and> second_walk_fuel (nat (\<lfloor>c\<rfloor> + 1) + 1) tz dat cp c r acc
        = Some (second_walk tz dat cp c r acc)"
  using move_back_le [of "jump_to_time tz" tz c] move_back_le [of "jump_to_time2 tz" tz c]
    move_back_cases [of "jump_to_time tz" tz c] move_back_cases [of "jump_to_time2 tz" tz c]
    primary_walk_fuel_enough [of c "nat (\<lfloor>c\<rfloor> + 1) + 1" tz dat cp ws acc]
    second_walk_fuel_enough [of c "nat (\<lfloor>c\<rfloor> + 1) + 1" tz dat cp r acc]
  by simp

section \<open>Calendar: properties\<close>

lemma time_of_day_ge: "0 \<le> time_of_day tz t"
proof -
  have "of_int \<lfloor>(t + of_int tz) / 86400\<rfloor> \<le> (t + of_int tz) / 86400"
    by (rule of_int_floor_le)
  then show ?thesis
    by (simp add: time_of_day_def local_day_def field_simps)
qed

lemma time_of_day_less: "time_of_day tz t < 86400"
proof -
  have "(t + of_int tz) / 86400 < of_int \<lfloor>(t + of_int tz) / 86400\<rfloor> + 1"
    by linarith
  then show ?thesis
    by (simp add: time_of_day_def local_day_def field_simps)
qed

lemma local_day_local_timestamp:
  assumes "0 \<le> s" "s < 86400"
  shows "local_day tz (local_timestamp tz d s) = d"
proof -
  have "\<lfloor>(of_int d * 86400 + s) / 86400\<rfloor> = d"
    using assms by (intro floor_unique) (simp_all add: field_simps)
  then show ?thesis
    by (simp add: local_day_def local_timestamp_def)
qed

lemma time_of_day_local_timestamp:
  "0 \<le> s \<Longrightarrow> s < 86400 \<Longrightarrow> time_of_day tz (local_timestamp tz d s) = s"
  by (simp add: time_of_day_def local_day_local_timestamp) (simp add: local_timestamp_def)

lemma local_timestamp_split:
  "local_timestamp tz (local_day tz t) (time_of_day tz t) = t"
  by (simp add: local_timestamp_def time_of_day_def)

lemma local_timestamp_less_day:
  "P < local_day tz t \<Longrightarrow> s < 86400 \<Longrightarrow> local_timestamp tz P s < t"
proof -
  assume a: "P < local_day tz t" "s < 86400"
  have "of_int (P + 1) \<le> (of_int (local_day tz t) :: rat)"
    using a(1) by simp
  then have "(of_int P + 1) * 86400 \<le> (of_int (local_day tz t) :: rat) * 86400"
    by simp
  moreover have "of_int (local_day tz t) * 86400 \<le> t + of_int tz"
    using time_of_day_ge [of tz t] by (simp add: time_of_day_def)
  ultimately have "of_int P * 86400 + s < t + of_int tz"
    using a(2) by (simp add: algebra_simps)
  then show ?thesis
    by (simp add: local_timestamp_def algebra_simps)
qed

lemma skip_weekend_le: "skip_weekend d \<le> d"
proof (induction d rule: skip_weekend.induct)
  case (1 d)
  then show ?case by (subst skip_weekend.simps) auto
qed

lemma skip_weekend_weekday: "weekday (skip_weekend d) < 5"
proof (induction d rule: skip_weekend.induct)
  case (1 d)
  then show ?case by (subst skip_weekend.simps) auto
qed

lemma skip_weekend_between:
  "skip_weekend d < d' \<Longrightarrow> d' \<le> d \<Longrightarrow> 5 \<le> weekday d'"
proof (induction d rule: skip_weekend.induct)
  case (1 d)
  show ?case
  proof (cases "5 \<le> weekday d")
    case True
    show ?thesis
    proof (cases "d' = d")
      case True
      with \<open>5 \<le> weekday d\<close> show ?thesis by simp
    next
      case False
      have "skip_weekend d = skip_weekend (d - 1)"
        using True by (subst skip_weekend.simps) simp
      then show ?thesis
        using 1 True False by simp
    qed
  next
    case False
    then have "skip_weekend d = d"
      by (subst skip_weekend.simps) simp
    then show ?thesis using 1 by simp
  qed
qed

lemma hour_lt_iff: "hour tz t < n \<longleftrightarrow> time_of_day tz t < of_int n * 3600"
  by (simp add: hour_def floor_less_iff field_simps)

lemma hour_ge_iff: "n \<le> hour tz t \<longleftrightarrow> of_int n * 3600 \<le> time_of_day tz t"
  by (simp add: hour_def le_floor_iff field_simps)

section \<open>The jump of the first walk\<close>

lemma move_back_landing:
  "move_back jump tz (t + 1) =
     (if \<not> is_trading_time tz t \<and> 0 < t then
        (case jump t of Some target \<Rightarrow> if target < t then target else t | None \<Rightarrow> t)
      else t)"
  by (simp add: move_back_def)

lemma morning_close_less_iff:
  "local_timestamp tz (local_day tz t) s < t \<longleftrightarrow> s < time_of_day tz t"
  by (auto simp: local_timestamp_def time_of_day_def)

lemma prev_day_close_props:
  "\<exists>P. P < local_day tz t \<and> weekday P < 5
     \<and> (\<forall>d. P < d \<and> d < local_day tz t \<longrightarrow> 5 \<le> weekday d)
     \<and> local_timestamp tz P afternoon_end < t
     \<and> prev_day_close tz t = local_timestamp tz P afternoon_end"
proof -
  let ?P = "skip_weekend (local_day tz t - 1)"
  have lt: "?P < local_day tz t"
    using skip_weekend_le [of "local_day tz t - 1"] by simp
  have wd: "weekday ?P < 5"
    by (rule skip_weekend_weekday)
  have btw: "\<forall>d. ?P < d \<and> d < local_day tz t \<longrightarrow> 5 \<le> weekday d"
    using skip_weekend_between [of "local_day tz t - 1"] by simp
  have "local_timestamp tz ?P afternoon_end < t"
    using lt by (rule local_timestamp_less_day) (simp add: afternoon_end_def)
  then show ?thesis
    using lt wd btw unfolding prev_day_close_def by blast
qed

text \<open>
  C8: when the cursor of the first backward walk lands, after its decrement, on a
  non-trading instant \<open>t > 0\<close>: with the hour in [11, 13) it moves to 11:30:00 of that day
  when that is strictly earlier (the instant is past the morning close) and stays
  otherwise; with the hour before 9 or from 15 on it moves to 15:00:00 of the latest
  earlier day that is not a Saturday or Sunday, which is always strictly earlier; in the
  other hours it stays; and whenever it moves, it moves to a strictly earlier jump target.
\<close>

theorem C8_jump_on_non_trading:
  assumes "\<not> is_trading_time tz t" and "0 < t"
  shows "(11 \<le> hour tz t \<and> hour tz t < 13 \<longrightarrow>
            move_back (jump_to_time tz) tz (t + 1) =
              (if morning_end < time_of_day tz t
               then local_timestamp tz (local_day tz t) morning_end else t))
       \<and> (hour tz t < 9 \<or> 15 \<le> hour tz t \<longrightarrow>
            (\<exists>P. P < local_day tz t \<and> weekday P < 5
               \<and> (\<forall>d. P < d \<and> d < local_day tz t \<longrightarrow> 5 \<le> weekday d)
               \<and> local_timestamp tz P afternoon_end < t
               \<and> move_back (jump_to_time tz) tz (t + 1) = local_timestamp tz P afternoon_end))
       \<and> ((9 \<le> hour tz t \<and> hour tz t < 11) \<or> (13 \<le> hour tz t \<and> hour tz t < 15) \<longrightarrow>
            move_back (jump_to_time tz) tz (t + 1) = t)
       \<and> (move_back (jump_to_time tz) tz (t + 1) \<noteq> t \<longrightarrow>
            move_back (jump_to_time tz) tz (t + 1) < t
            \<and> jump_to_time tz t = Some (move_back (jump_to_time tz) tz (t + 1)))"
proof (intro conjI impI)
  assume h: "11 \<le> hour tz t \<and> hour tz t < 13"
  then show "move_back (jump_to_time tz) tz (t + 1) =
      (if morning_end < time_of_day tz t
       then local_timestamp tz (local_day tz t) morning_end else t)"
    using assms by (simp add: move_back_landing jump_to_time_def morning_close_less_iff)
next
  assume h: "hour tz t < 9 \<or> 15 \<le> hour tz t"
  obtain P where P: "P < local_day tz t" "weekday P < 5"
      "\<forall>d. P < d \<and> d < local_day tz t \<longrightarrow> 5 \<le> weekday d"
      "local_timestamp tz P afternoon_end < t"
      "prev_day_close tz t = local_timestamp tz P afternoon_end"
    using prev_day_close_props [of tz t] by blast
  have "jump_to_time tz t = Some (prev_day_close tz t)"
    using h by (auto simp: jump_to_time_def)
  then have "move_back (jump_to_time tz) tz (t + 1) = local_timestamp tz P afternoon_end"
    using assms P(4,5) by (simp add: move_back_landing)
  then show "\<exists>P. P < local_day tz t \<and> weekday P < 5
      \<and> (\<forall>d. P < d \<and> d < local_day tz t \<longrightarrow> 5 \<le> weekday d)
      \<and> local_timestamp tz P afternoon_end < t
      \<and> move_back (jump_to_time tz) tz (t + 1) = local_timestamp tz P afternoon_end"
    using P(1-4) by blast
next
  assume "(9 \<le> hour tz t \<and> hour tz t < 11) \<or> (13 \<le> hour tz t \<and> hour tz t < 15)"
  then have "jump_to_time tz t = None"
    by (auto simp: jump_to_time_def)
  then show "move_back (jump_to_time tz) tz (t + 1) = t"
    by (simp add: move_back_landing)
next
  assume "move_back (jump_to_time tz) tz (t + 1) \<noteq> t"
  then show "move_back (jump_to_time tz) tz (t + 1) < t"
    by (auto simp: move_back_landing split: option.splits if_splits)
next
  assume "move_back (jump_to_time tz) tz (t + 1) \<noteq> t"
  then show "jump_to_time tz t = Some (move_back (jump_to_time tz) tz (t + 1))"
    by (auto simp: move_back_landing split: option.splits if_splits)
qed


theorem C8_jump_on_non_trading_witness:
  "\<not> is_trading_time 28800 1743739200 \<and> (0::rat) < 1743739200
   \<and> hour 28800 1743739200 = 12
   \<and> move_back (jump_to_time 28800) 28800 (1743739200 + 1) = 1743737400"
proof -
  have h1: "\<not> is_trading_time 28800 1743739200" by code_simp
  have h2: "(0::rat) < 1743739200" by simp
  have h3: "hour 28800 1743739200 = 12" by code_simp
  have h4: "morning_end < time_of_day 28800 1743739200" by code_simp
  have h5: "local_timestamp 28800 (local_day 28800 1743739200) morning_end = 1743737400"
    by code_simp
  show ?thesis
    using C8_jump_on_non_trading [OF h1 h2] h1 h3 h4 h5 by simp
qed


section \<open>Update: the retention policy\<close>

lemma length_sample_part:
  "length (sample_part part keep) = (if part = [] then 0 else nat keep)"
  by (simp add: sample_part_def)

lemma sample_index_in_range:
  assumes "i < k"
  shows "i * n div k < (n::nat) \<or> n = 0"
proof (cases "n = 0")
  case False
  have "i * n < n * k" using assms False by simp
  then have "i * n div k < n" by (rule less_mult_imp_div_less)
  then show ?thesis ..
qed simp

lemma set_sample_part: "set (sample_part part keep) \<subseteq> set part"
proof (cases "part = []")
  case True
  then show ?thesis by (simp add: sample_part_def)
next
  case False
  have "part ! (i * length part div nat keep) \<in> set part" if "i < nat keep" for i
    using sample_index_in_range [OF that, of "length part"] False by simp
  then show ?thesis
    using False by (auto simp: sample_part_def)
qed

lemma set_resample: "set (resample nb dat) \<subseteq> set dat"
proof -
  have a: "set (take n (sort_key fst dat)) \<subseteq> set dat" for n
    using set_take_subset [of n "sort_key fst dat"] by simp
  have b: "set (drop m (take n (sort_key fst dat))) \<subseteq> set dat" for m n
    using set_drop_subset [of m "take n (sort_key fst dat)"] a [of n] by blast
  have c: "set (drop m (sort_key fst dat)) \<subseteq> set dat" for m
    using set_drop_subset [of m "sort_key fst dat"] by simp
  show ?thesis
    unfolding resample_def Let_def set_append
    using set_sample_part a b c by (meson Un_least subset_trans)
qed

lemma keep_counts:
  assumes "2 \<le> nb"
  shows "max 1 (int_of_scaled nb 1 10) + max 1 (int_of_scaled nb 3 10) \<le> nb"
proof -
  have a: "nb = 10 * (nb div 10) + nb mod 10" "0 \<le> nb mod 10"
    by simp_all
  have b: "nb * 3 = 10 * (nb * 3 div 10) + nb * 3 mod 10" "0 \<le> nb * 3 mod 10"
    by simp_all
  have "max 1 (nb div 10) + max 1 (nb * 3 div 10) \<le> nb"
    using assms a b unfolding max_def by (auto; linarith)
  then show ?thesis
    using assms by (simp add: int_of_scaled_def)
qed

lemma length_resample:
  assumes "1 \<le> nb" and "int (length dat) = nb + 1"
  shows "int (length (resample nb dat)) \<le> nb"
proof (cases "nb = 1")
  case True
  then have len: "length dat = 2" using assms(2) by simp
  then have "length (sort_key fst dat) = 2" by simp
  then show ?thesis
    using True len
    by (simp add: resample_def Let_def int_of_scaled_def length_sample_part)
next
  case False
  then have nb: "2 \<le> nb" using assms(1) by simp
  define ek where "ek = max 1 (int_of_scaled nb 1 10)"
  define mk where "mk = max 1 (int_of_scaled nb 3 10)"
  have k: "ek + mk \<le> nb" "1 \<le> ek" "1 \<le> mk"
    using keep_counts [OF nb] by (simp_all add: ek_def mk_def)
  have "length (resample nb dat) \<le> nat ek + nat mk + nat (nb - ek - mk)"
    unfolding resample_def Let_def length_append length_sample_part ek_def [symmetric]
      mk_def [symmetric]
    by (simp add: add_mono)
  then show ?thesis using k by linarith
qed

lemma resample_not_empty:
  assumes "2 \<le> length dat"
  shows "resample nb dat \<noteq> []"
proof -
  define s where "s = sort_key fst dat"
  define ee where "ee = nat (int_of_scaled (int (length dat)) 2 10)"
  define me where "me = nat (int_of_scaled (int (length dat)) 5 10)"
  have len: "length s = length dat" by (simp add: s_def)
  have "int (length dat) * 5 div 10 \<ge> 1"
    using assms by linarith
  then have me: "1 \<le> me"
    by (simp add: me_def int_of_scaled_def)
  have r: "resample nb dat =
      sample_part (take ee s) (max 1 (int_of_scaled nb 1 10))
      @ sample_part (drop ee (take me s)) (max 1 (int_of_scaled nb 3 10))
      @ sample_part (drop me s)
          (nb - max 1 (int_of_scaled nb 1 10) - max 1 (int_of_scaled nb 3 10))"
    by (simp add: resample_def Let_def s_def ee_def me_def)
  have ne: "part \<noteq> [] \<Longrightarrow> sample_part part (max 1 k) \<noteq> []" for part :: "sample list" and k
    by (simp add: sample_part_def)
  show ?thesis
  proof (cases "ee = 0")
    case True
    have "length (drop ee (take me s)) = min (length dat) me"
      using True len by simp
    then have "drop ee (take me s) \<noteq> []"
      using me assms by auto
    then show ?thesis
      unfolding r using ne by simp
  next
    case False
    moreover have "s \<noteq> []"
      using assms len by auto
    ultimately have "take ee s \<noteq> []"
      by simp
    then show ?thesis
      unfolding r using ne by simp
  qed
qed


lemma last_sort_key_in: "xs \<noteq> [] \<Longrightarrow> last (sort_key f xs) \<in> set xs"
proof -
  assume "xs \<noteq> []"
  then have "sort_key f xs \<noteq> []"
    by (metis length_0_conv length_sort)
  then have "last (sort_key f xs) \<in> set (sort_key f xs)"
    by (rule last_in_set)
  then show ?thesis by simp
qed

lemma sorted_le_last: "sorted xs \<Longrightarrow> x \<in> set xs \<Longrightarrow> x \<le> last xs"
  by (induction xs) auto

lemma last_sort_key_max:
  assumes "x \<in> set xs"
  shows "f x \<le> f (last (sort_key f xs))"
proof -
  have ne: "sort_key f xs \<noteq> []"
    using assms by (metis empty_iff length_0_conv length_sort list.set(1))
  have "f x \<in> set (map f (sort_key f xs))"
    using assms by simp
  moreover have "sorted (map f (sort_key f xs))"
    by (rule sorted_sort_key)
  ultimately have "f x \<le> last (map f (sort_key f xs))"
    using sorted_le_last [of "map f (sort_key f xs)" "f x"] by blast
  then show ?thesis
    using ne by (simp add: last_map)
qed

lemma Update_result:
  "Update st ts v =
     (let dat = data st @ [(ts, v)];
          new = resample (num_bin st) dat;
          latest = last (sort_key fst dat)
      in if num_bin st < int (length dat) then
           if latest \<in> set new then Inr (st\<lparr>current_timestamp := Some ts, data := new\<rparr>)
           else if new = [] then Inl IndexError
           else Inr (st\<lparr>current_timestamp := Some ts, data := butlast new @ [latest]\<rparr>)
         else Inr (st\<lparr>current_timestamp := Some ts, data := dat\<rparr>))"
  by (simp add: Update_def Let_def)

lemma Update_ok:
  assumes "1 \<le> num_bin st" and "int (length (data st)) \<le> num_bin st"
  shows "\<exists>st'. Update st ts v = Inr st' \<and> num_bin st' = num_bin st
           \<and> int (length (data st')) \<le> num_bin st"
proof (cases "num_bin st < int (length (data st @ [(ts, v)]))")
  case False
  then show ?thesis
    by (simp add: Update_result Let_def)
next
  case True
  let ?dat = "data st @ [(ts, v)]"
  let ?new = "resample (num_bin st) ?dat"
  have len: "int (length ?dat) = num_bin st + 1"
    using True assms(2) by simp
  then have "2 \<le> length ?dat"
    using assms(1) by linarith
  then have ne: "?new \<noteq> []"
    by (rule resample_not_empty)
  have le: "int (length ?new) \<le> num_bin st"
    using assms(1) len by (rule length_resample)
  have "length (butlast ?new @ [last (sort_key fst ?dat)]) = length ?new"
    using ne by (simp add: Suc_leI)
  then show ?thesis
    using True ne le by (simp add: Update_result Let_def del: length_append length_butlast)
qed

lemma Update_keeps_latest:
  assumes "Update st ts v = Inr st'"
  shows "last (sort_key fst (data st @ [(ts, v)])) \<in> set (data st')"
    and "set (data st') \<subseteq> insert (ts, v) (set (data st))"
proof -
  let ?dat = "data st @ [(ts, v)]"
  let ?new = "resample (num_bin st) ?dat"
  let ?latest = "last (sort_key fst ?dat)"
  have in_dat: "?latest \<in> set ?dat"
    by (rule last_sort_key_in) simp
  have sub: "set ?new \<subseteq> set ?dat"
    by (rule set_resample)
  have sub': "set (butlast ?new) \<subseteq> set ?dat"
    using sub by (meson in_set_butlastD subsetD subsetI)
  show "?latest \<in> set (data st')"
    using assms in_dat by (auto simp: Update_result Let_def split: if_splits)
  have "set (data st') \<subseteq> set ?dat"
    using assms in_dat sub sub'
    by (auto simp: Update_result Let_def split: if_splits)
  then show "set (data st') \<subseteq> insert (ts, v) (set (data st))"
    by auto
qed

lemma Updates_ok:
  assumes "1 \<le> num_bin st" and "int (length (data st)) \<le> num_bin st"
  shows "\<exists>st'. Updates st ups = Inr st' \<and> num_bin st' = num_bin st
           \<and> int (length (data st')) \<le> num_bin st"
  using assms
proof (induction ups arbitrary: st)
  case Nil
  then show ?case by simp
next
  case (Cons u ups)
  obtain ts v where u: "u = (ts, v)" by (cases u)
  obtain st1 where st1: "Update st ts v = Inr st1" "num_bin st1 = num_bin st"
      "int (length (data st1)) \<le> num_bin st"
    using Update_ok [OF Cons.prems] by blast
  have "\<exists>st'. Updates st1 ups = Inr st' \<and> num_bin st' = num_bin st1
      \<and> int (length (data st')) \<le> num_bin st1"
    using Cons.prems st1 by (intro Cons.IH) simp_all
  then show ?case
    using st1 u by simp
qed

lemma Updates_latest:
  assumes "Updates st ups = Inr st'" and "ups \<noteq> []"
  shows "\<exists>s \<in> set (data st'). s \<in> set (data st) \<union> set ups
           \<and> (\<forall>u \<in> set (data st) \<union> set ups. fst u \<le> fst s)"
  using assms
proof (induction ups arbitrary: st)
  case Nil
  then show ?case by simp
next
  case (Cons u ups)
  obtain ts v where u: "u = (ts, v)" by (cases u)
  obtain st1 where st1: "Update st ts v = Inr st1" "Updates st1 ups = Inr st'"
    using Cons.prems(1) u by (auto split: sum.splits)
  let ?dat = "data st @ [(ts, v)]"
  let ?latest = "last (sort_key fst ?dat)"
  have l_in: "?latest \<in> set (data st1)" and sub: "set (data st1) \<subseteq> insert (ts, v) (set (data st))"
    using Update_keeps_latest [OF st1(1)] by blast+
  have l_max: "\<forall>x \<in> set ?dat. fst x \<le> fst ?latest"
    using last_sort_key_max [of _ ?dat fst] by blast
  show ?case
  proof (cases "ups = []")
    case True
    then have "st' = st1" using st1(2) by simp
    then show ?thesis
      using l_in l_max sub u True by (intro bexI [of _ ?latest]) auto
  next
    case False
    obtain s where s: "s \<in> set (data st')" "s \<in> set (data st1) \<union> set ups"
        "\<forall>x \<in> set (data st1) \<union> set ups. fst x \<le> fst s"
      using Cons.IH [OF st1(2) False] by blast
    have "fst ?latest \<le> fst s"
      using s(3) l_in by blast
    then have "\<forall>x \<in> set (data st) \<union> set (u # ups). fst x \<le> fst s"
      using l_max s(3) u by fastforce
    moreover have "s \<in> set (data st) \<union> set (u # ups)"
      using s(2) sub u by auto
    ultimately show ?thesis
      using s(1) by blast
  qed
qed

text \<open>
  C2: for every capacity of at least 1 and every sequence of \<open>Update\<close> calls on a fresh
  engine, each \<open>Update\<close> returns and the number of stored samples after it is at most
  the capacity (\<open>take k ups\<close> is the sequence up to the \<open>k\<close>-th call).
\<close>

theorem C2_size_bound:
  assumes "1 \<le> cap"
  shows "\<exists>st. Updates (init cap w) (take k ups) = Inr st \<and> int (length (data st)) \<le> cap"
proof -
  have "\<exists>st'. Updates (init cap w) (take k ups) = Inr st'
      \<and> num_bin st' = num_bin (init cap w)
      \<and> int (length (data st')) \<le> num_bin (init cap w)"
    using assms by (intro Updates_ok) (simp_all add: init_def)
  then show ?thesis
    by (auto simp: init_def)
qed

theorem C2_size_bound_witness:
  "(1::int) \<le> 2
   \<and> (\<exists>st. Updates (init 2 60) (take 3 [(10, 1), (10, 2), (3, 5), (4, 6)]) = Inr st
         \<and> int (length (data st)) \<le> 2)"
  using C2_size_bound [of 2 60 3 "[(10, 1), (10, 2), (3, 5), (4, 6)]"] by simp

text \<open>
  C3: for every capacity of at least 1 and every non-empty sequence of \<open>Update\<close> calls on
  a fresh engine (timestamps in any order, duplicates allowed), after each call the series
  holds an inserted sample whose timestamp is the maximum of all timestamps inserted so
  far.
\<close>

theorem C3_latest_present:
  assumes "1 \<le> cap" and "ups \<noteq> []" and "0 < k"
  shows "\<exists>st. Updates (init cap w) (take k ups) = Inr st
           \<and> (\<exists>s \<in> set (data st). s \<in> set (take k ups)
                 \<and> (\<forall>u \<in> set (take k ups). fst u \<le> fst s))"
proof -
  have ne: "take k ups \<noteq> []"
    using assms(2,3) by simp
  obtain st where st: "Updates (init cap w) (take k ups) = Inr st"
    using Updates_ok [of "init cap w" "take k ups"] assms(1) by (auto simp: init_def)
  show ?thesis
    using Updates_latest [OF st ne] st by (simp add: init_def)
qed

theorem C3_latest_present_witness:
  "(1::int) \<le> 2 \<and> ([(10, 1), (10, 2), (3, 5), (4, 6)] :: sample list) \<noteq> [] \<and> (0::nat) < 3
   \<and> (\<exists>st. Updates (init 2 60) (take 3 [(10, 1), (10, 2), (3, 5), (4, 6)]) = Inr st
         \<and> (\<exists>s \<in> set (data st). s \<in> set (take 3 [(10, 1), (10, 2), (3, 5), (4, 6)])
               \<and> (\<forall>u \<in> set (take 3 [(10, 1), (10, 2), (3, 5), (4, 6)]). fst u \<le> fst s)))"
  using C3_latest_present [of 2 "[(10, 1), (10, 2), (3, 5), (4, 6)]" 3 60] by simp


section \<open>The scenarios\<close>

lemma is_trading_time_local:
  "0 \<le> s \<Longrightarrow> s < 86400 \<Longrightarrow>
   is_trading_time tz (local_timestamp tz d s) =
     (weekday d < 5 \<and> (34200 \<le> s \<and> s \<le> 41400 \<or> 46800 \<le> s \<and> s \<le> 54000))"
  by (auto simp: is_trading_time_def local_day_local_timestamp time_of_day_local_timestamp
      morning_start_def morning_end_def afternoon_start_def afternoon_end_def)

lemma local_timestamp_pred: "local_timestamp tz d s - 1 = local_timestamp tz d (s - 1)"
  by (simp add: local_timestamp_def)

lemma local_timestamp_diff:
  "local_timestamp tz d s - local_timestamp tz d s' = s - s'"
  by (simp add: local_timestamp_def)

lemma local_timestamp_minus: "local_timestamp tz d s - w = local_timestamp tz d (s - w)"
  by (simp add: local_timestamp_def)

lemma local_timestamp_le_iff:
  "local_timestamp tz d s \<le> local_timestamp tz d s' \<longleftrightarrow> s \<le> s'"
  by (simp add: local_timestamp_def)

lemma local_timestamp_less_iff:
  "local_timestamp tz d s < local_timestamp tz d s' \<longleftrightarrow> s < s'"
  by (simp add: local_timestamp_def)

lemma local_timestamp_eq_iff:
  "local_timestamp tz d s = local_timestamp tz d s' \<longleftrightarrow> s = s'"
  by (simp add: local_timestamp_def)

lemma local_timestamp_pos:
  assumes "\<bar>tz\<bar> < 86400" "1 \<le> d" "0 \<le> s"
  shows "0 < local_timestamp tz d s"
proof -
  have "(86400::rat) \<le> of_int d * 86400"
    using assms(2) by simp
  moreover have "(of_int tz :: rat) < 86400"
    using assms(1) by (metis abs_less_iff of_int_less_iff of_int_numeral)
  ultimately show ?thesis
    using assms(3) by (simp add: local_timestamp_def)
qed

lemmas walk_simps =
  primary_walk_step primary_walk_stop accumulate_def move_back_def jump_to_time_def
  is_trading_time_local hour_lt_iff hour_ge_iff time_of_day_local_timestamp local_timestamp_pred local_timestamp_diff
  local_timestamp_le_iff local_timestamp_less_iff
  local_timestamp_eq_iff local_day_local_timestamp

text \<open>
  C6 (scenario A): capacity 10, window 60, one \<open>Update\<close> at 09:31:00 local time of day
  20182 after 1970-01-01 (2025-04-04, a Friday: \<open>weekday\<close> 4) with price 100; \<open>Get\<close>
  returns exactly 100.  The walk counts one point: the instant of the sample; the sixty
  earlier seconds resolve to 0.
\<close>

theorem C6_scenario_A:
  assumes tz: "\<bar>tz\<bar> < 86400"
  shows "weekday 20182 = 4
       \<and> is_trading_time tz (local_timestamp tz 20182 34260)
       \<and> (\<exists>st. Update (init 10 60) (local_timestamp tz 20182 34260) 100 = Inr st
             \<and> Get tz st = 100)"
proof -
  have pos: "\<And>s. 0 \<le> s \<Longrightarrow> 0 < local_timestamp tz 20182 s"
    using tz by (rule local_timestamp_pos) simp_all
  have pos': "\<And>s. 0 \<le> s \<Longrightarrow> 0 \<le> local_timestamp tz 20182 s"
    using pos by (simp add: less_imp_le)
  have pos'': "\<And>s. 0 \<le> s \<Longrightarrow> local_timestamp tz 20182 s \<noteq> 0"
    using pos by fastforce
  have wd: "weekday 20182 < 5" "weekday 20182 = 4"
    by (simp_all add: weekday_def)
  have tr: "is_trading_time tz (local_timestamp tz 20182 34260)"
    by (simp add: is_trading_time_local wd)
  have u: "Update (init 10 60) (local_timestamp tz 20182 34260) 100
      = Inr \<lparr>num_bin = 10, window = 60, data = [(local_timestamp tz 20182 34260, 100)],
          current_timestamp = Some (local_timestamp tz 20182 34260)\<rparr>"
    by (simp add: Update_def init_def)
  have w: "primary_walk tz [(local_timestamp tz 20182 34260, 100)] 100
      (local_timestamp tz 20182 34200) (local_timestamp tz 20182 34260) (0, 0) = (100, 1)"
    by (simp add: walk_simps pos pos' wd find_price_at_time_def)
  have "hour tz (local_timestamp tz 20182 34260) < 12"
    by (simp add: hour_lt_iff time_of_day_local_timestamp)
  then have "Get tz \<lparr>num_bin = 10, window = 60, data = [(local_timestamp tz 20182 34260, 100)],
      current_timestamp = Some (local_timestamp tz 20182 34260)\<rparr> = 100"
    using w
    by (simp add: Get_def GetSMA_def pos'' local_timestamp_minus continue_walk_def
        is_afternoon_session_def sma_of_def)
  then show ?thesis
    using u wd(2) tr by simp
qed

theorem C6_scenario_A_witness:
  "\<bar>28800 :: int\<bar> < 86400
   \<and> (\<exists>st. Update (init 10 60) (local_timestamp 28800 20182 34260) 100 = Inr st
         \<and> Get 28800 st = 100)"
  using C6_scenario_A [of 28800] by simp

text \<open>
  C5 (scenario B): on a weekday \<open>d\<close>, with capacity at least 2 and window 10, after
  \<open>Update\<close> at 09:30:00 with price 100 and at 09:30:05 with price 101, the walk counts six
  points with total 601, the seconds 09:30:00 to 09:30:04 resolve to 100 and 09:30:05 to 101,
  and \<open>Get\<close> returns (5 * 100 + 101) / 6.
\<close>

theorem C5_scenario_B:
  assumes tz: "\<bar>tz\<bar> < 86400" and d: "weekday d < 5" "1 \<le> d" and cap: "2 \<le> cap"
  shows "primary_walk tz
           [(local_timestamp tz d 34200, 100), (local_timestamp tz d 34205, 101)] 101
           (local_timestamp tz d 34205 - 10) (local_timestamp tz d 34205) (0, 0) = (601, 6)
       \<and> map (\<lambda>s. find_price_at_time
                [(local_timestamp tz d 34200, 100), (local_timestamp tz d 34205, 101)]
                (local_timestamp tz d s) 101)
           [34200, 34201, 34202, 34203, 34204, 34205] = [100, 100, 100, 100, 100, 101]
       \<and> (\<exists>st. Updates (init cap 10)
              [(local_timestamp tz d 34200, 100), (local_timestamp tz d 34205, 101)] = Inr st
            \<and> Get tz st = (5 * 100 + 101) / 6)"
proof -
  have pos: "\<And>s. 0 \<le> s \<Longrightarrow> 0 < local_timestamp tz d s"
    using tz d(2) by (rule local_timestamp_pos)
  have pos': "\<And>s. 0 \<le> s \<Longrightarrow> 0 \<le> local_timestamp tz d s"
    using pos by (simp add: less_imp_le)
  have pos'': "\<And>s. 0 \<le> s \<Longrightarrow> local_timestamp tz d s \<noteq> 0"
    using pos by fastforce
  let ?dat = "[(local_timestamp tz d 34200, 100), (local_timestamp tz d 34205, 101)]"
  have u: "Updates (init cap 10) ?dat
      = Inr \<lparr>num_bin = cap, window = 10, data = ?dat,
          current_timestamp = Some (local_timestamp tz d 34205)\<rparr>"
    using cap by (simp add: Update_def init_def)
  have srt: "sort ?dat = ?dat"
    by (simp add: local_timestamp_less_iff local_timestamp_le_iff)
  have w: "primary_walk tz ?dat 101
      (local_timestamp tz d 34195) (local_timestamp tz d 34205) (0, 0) = (601, 6)"
    by (simp add: walk_simps pos pos' d find_price_at_time_def srt)
  have "hour tz (local_timestamp tz d 34205) < 12"
    by (simp add: hour_lt_iff time_of_day_local_timestamp)
  then have "Get tz \<lparr>num_bin = cap, window = 10, data = ?dat,
      current_timestamp = Some (local_timestamp tz d 34205)\<rparr> = (5 * 100 + 101) / 6"
    using w
    by (simp add: Get_def GetSMA_def pos'' local_timestamp_minus continue_walk_def
        is_afternoon_session_def sma_of_def)
  moreover have "map (\<lambda>s. find_price_at_time ?dat (local_timestamp tz d s) 101)
      [34200, 34201, 34202, 34203, 34204, 34205] = [100, 100, 100, 100, 100, 101]"
    by (simp add: find_price_at_time_def srt local_timestamp_diff local_timestamp_less_iff)
  ultimately show ?thesis
    using u w by (simp add: local_timestamp_minus)
qed

theorem C5_scenario_B_witness:
  "\<bar>28800 :: int\<bar> < 86400 \<and> weekday 20182 < 5 \<and> (1::int) \<le> 20182 \<and> (2::int) \<le> 10
   \<and> (\<exists>st. Updates (init 10 10)
          [(local_timestamp 28800 20182 34200, 100), (local_timestamp 28800 20182 34205, 101)]
            = Inr st
        \<and> Get 28800 st = (5 * 100 + 101) / 6)"
proof -
  have wd: "weekday 20182 < 5"
    by (simp add: weekday_def)
  show ?thesis
    using C5_scenario_B [of 28800 20182 10] wd by simp
qed


section \<open>The afternoon continuation\<close>

lemma on_grid_local_timestamp:
  "32400 \<le> k \<Longrightarrow> k \<le> 54000 \<Longrightarrow> on_grid tz (local_timestamp tz d (of_int k))"
  by (simp add: on_grid_def time_of_day_local_timestamp)

lemma on_grid_obtain:
  assumes "on_grid tz c"
  obtains k :: int where "c = local_timestamp tz (local_day tz c) (of_int k)"
    and "32400 \<le> k" and "k \<le> 54000"
proof -
  define k where "k = \<lfloor>time_of_day tz c\<rfloor>"
  have tod: "time_of_day tz c = of_int k"
    using assms unfolding on_grid_def k_def by (elim conjE) (rule sym)
  have "(32400::rat) \<le> of_int k" "(of_int k :: rat) \<le> 54000"
    using assms tod by (simp_all add: on_grid_def)
  then have "32400 \<le> k" "k \<le> 54000"
    by linarith+
  moreover have "c = local_timestamp tz (local_day tz c) (of_int k)"
    using local_timestamp_split [of tz c] tod by simp
  ultimately show thesis
    using that by blast
qed

lemma move_back_no_jump:
  "is_trading_time tz (c - 1) \<or> c - 1 \<le> 0 \<or> jump (c - 1) = None \<Longrightarrow>
   move_back jump tz c = c - 1"
  by (auto simp: move_back_def Let_def)

lemma move_back_jump:
  "\<not> is_trading_time tz (c - 1) \<Longrightarrow> 0 < c - 1 \<Longrightarrow> jump (c - 1) = Some target \<Longrightarrow>
   move_back jump tz c = (if target < c - 1 then target else c - 1)"
  by (simp add: move_back_def Let_def)

lemma prev_day_close_less: "prev_day_close tz t < t"
  using prev_day_close_props [of tz t] by auto

lemma step_cases:
  assumes "on_grid tz c" and "1 < c"
  shows "(move_back (jump_to_time tz) tz c = c - 1
          \<and> move_back (jump_to_time2 tz) tz c = c - 1 \<and> on_grid tz (c - 1))
       \<or> (time_of_day tz c = 32400
          \<and> move_back (jump_to_time tz) tz c = prev_day_close tz (c - 1)
          \<and> move_back (jump_to_time2 tz) tz c = prev_day_close tz (c - 1))
       \<or> (\<exists>n::nat. 0 < n \<and> n < 5400
            \<and> c - 1 = local_timestamp tz (local_day tz c) (41400 + of_nat n)
            \<and> move_back (jump_to_time tz) tz c = local_timestamp tz (local_day tz c) 41400
            \<and> move_back (jump_to_time2 tz) tz c = c - 1)"
proof -
  define d where "d = local_day tz c"
  obtain k :: int where c: "c = local_timestamp tz d (of_int k)" and k: "32400 \<le> k" "k \<le> 54000"
    using on_grid_obtain [OF assms(1)] unfolding d_def by blast
  have c1: "c - 1 = local_timestamp tz d (of_int (k - 1))"
    by (simp add: c local_timestamp_pred)
  have rng: "(0::rat) \<le> of_int (k - 1)" "(of_int (k - 1) :: rat) < 86400"
    using k by simp_all
  have day1: "local_day tz (c - 1) = d"
    unfolding c1 using rng by (rule local_day_local_timestamp)
  have tod1: "time_of_day tz (c - 1) = of_int (k - 1)"
    unfolding c1 using rng by (rule time_of_day_local_timestamp)
  have pos1: "0 < c - 1"
    using assms(2) by simp
  have h_lt: "hour tz (c - 1) < n \<longleftrightarrow> k - 1 < n * 3600" for n
  proof -
    have "hour tz (c - 1) < n \<longleftrightarrow> (of_int (k - 1) :: rat) < of_int (n * 3600)"
      by (simp add: hour_lt_iff tod1)
    then show ?thesis by (simp only: of_int_less_iff)
  qed
  have h_ge: "n \<le> hour tz (c - 1) \<longleftrightarrow> n * 3600 \<le> k - 1" for n
  proof -
    have "n \<le> hour tz (c - 1) \<longleftrightarrow> (of_int (n * 3600) :: rat) \<le> of_int (k - 1)"
      by (simp add: hour_ge_iff tod1)
    then show ?thesis by (simp only: of_int_le_iff)
  qed
  show ?thesis
  proof (cases "is_trading_time tz (c - 1)")
    case True
    then have "34200 \<le> k - 1"
      using rng unfolding c1
      by (auto simp: is_trading_time_local simp del: of_int_diff)
    then have "on_grid tz (c - 1)"
      unfolding c1 using k by (intro on_grid_local_timestamp) simp_all
    then show ?thesis
      using True by (simp add: move_back_no_jump)
  next
    case nt: False
    consider (night) "k = 32400" | (midday) "41400 < k - 1" "k - 1 < 46800"
      | (other) "32400 \<le> k - 1" "k - 1 \<le> 41400 \<or> 46800 \<le> k - 1"
      using k by linarith
    then show ?thesis
    proof cases
      case night
      have j1: "jump_to_time tz (c - 1) = Some (prev_day_close tz (c - 1))"
        using night by (simp add: jump_to_time_def h_lt h_ge)
      have j2: "jump_to_time2 tz (c - 1) = Some (prev_day_close tz (c - 1))"
        using night by (simp add: jump_to_time2_def h_lt h_ge)
      have "time_of_day tz c = 32400"
        using night k unfolding c by (simp add: time_of_day_local_timestamp)
      then show ?thesis
        using nt pos1 j1 j2 prev_day_close_less [of tz "c - 1"]
        by (simp add: move_back_jump)
    next
      case midday
      define n where "n = nat (k - 1 - 41400)"
      have n: "0 < n" "n < 5400" "of_int (k - 1) = (41400 + of_nat n :: rat)"
        using midday unfolding n_def by (simp_all add: of_nat_nat)
      have j1: "jump_to_time tz (c - 1) = Some (local_timestamp tz d morning_end)"
        using midday by (simp add: jump_to_time_def h_lt h_ge day1)
      have j2: "jump_to_time2 tz (c - 1) = None"
        using midday by (simp add: jump_to_time2_def h_lt h_ge)
      have "local_timestamp tz d morning_end < c - 1"
        unfolding c1 using n by (simp add: local_timestamp_less_iff morning_end_def)
      then have "move_back (jump_to_time tz) tz c = local_timestamp tz d 41400"
        using nt pos1 j1 by (simp add: move_back_jump morning_end_def)
      moreover have "move_back (jump_to_time2 tz) tz c = c - 1"
        using j2 by (simp add: move_back_no_jump)
      moreover have "c - 1 = local_timestamp tz d (41400 + of_nat n)"
        using c1 n(3) by simp
      ultimately show ?thesis
        using n(1,2) unfolding d_def by blast
    next
      case other
      have grid: "on_grid tz (c - 1)"
        unfolding c1 using other(1) k by (intro on_grid_local_timestamp) simp_all
      have j2: "jump_to_time2 tz (c - 1) = None"
        using other k by (simp add: jump_to_time2_def h_lt h_ge)
      have m1: "move_back (jump_to_time tz) tz c = c - 1"
      proof (cases "39600 \<le> k - 1 \<and> k - 1 \<le> 41400")
        case True
        then have j1: "jump_to_time tz (c - 1) = Some (local_timestamp tz d morning_end)"
          by (simp add: jump_to_time_def h_lt h_ge day1)
        have "\<not> local_timestamp tz d morning_end < c - 1"
          unfolding c1 using True
          by (simp add: local_timestamp_less_iff morning_end_def del: of_int_diff)
        then show ?thesis
          using nt pos1 j1 by (simp add: move_back_jump)
      next
        case False
        then have "jump_to_time tz (c - 1) = None"
          using other k by (auto simp: jump_to_time_def h_lt h_ge)
        then show ?thesis
          by (simp add: move_back_no_jump)
      qed
      show ?thesis
        using grid m1 j2 by (simp add: move_back_no_jump)
    qed
  qed
qed


lemma accumulate_not_trading:
  "\<not> is_trading_time tz c \<Longrightarrow> accumulate tz dat cp c acc = acc"
  by (simp add: accumulate_def)

lemma midday_not_trading:
  "41400 < s \<Longrightarrow> s < 46800 \<Longrightarrow> \<not> is_trading_time tz (local_timestamp tz d s)"
  by (simp add: is_trading_time_local)

lemma second_walk_midday_skip:
  "n < 5400 \<Longrightarrow>
   second_walk tz dat cp (local_timestamp tz d (41400 + of_nat n)) r acc
     = second_walk tz dat cp (local_timestamp tz d 41400) r acc"
proof (induction n)
  case 0
  then show ?case by simp
next
  case (Suc n)
  let ?x = "local_timestamp tz d (41400 + of_nat (Suc n))"
  have nt: "\<not> is_trading_time tz ?x"
    using Suc.prems by (intro midday_not_trading) simp_all
  have pred: "?x - 1 = local_timestamp tz d (41400 + of_nat n)"
    by (simp add: local_timestamp_pred)
  show ?case
  proof (cases "0 \<le> ?x \<and> 0 < r")
    case True
    have tod: "time_of_day tz (?x - 1) = 41400 + of_nat n"
      unfolding pred using Suc.prems by (intro time_of_day_local_timestamp) simp_all
    have "jump_to_time2 tz (?x - 1) = None"
      unfolding jump_to_time2_def hour_lt_iff hour_ge_iff tod
      using Suc.prems by simp
    then have mb: "move_back (jump_to_time2 tz) tz ?x = local_timestamp tz d (41400 + of_nat n)"
      using pred by (simp add: move_back_no_jump)
    have "second_walk tz dat cp ?x r acc
        = second_walk tz dat cp (local_timestamp tz d (41400 + of_nat n)) r acc"
      using True nt mb by (simp add: second_walk_step accumulate_not_trading)
    then show ?thesis
      using Suc by simp
  next
    case False
    have "local_timestamp tz d 41400 \<le> ?x"
      by (simp add: local_timestamp_le_iff)
    then have "\<not> (0 \<le> local_timestamp tz d 41400 \<and> 0 < r)"
      using False by auto
    then have "second_walk tz dat cp (local_timestamp tz d 41400) r acc = acc"
      by (rule second_walk_stop)
    moreover have "second_walk tz dat cp ?x r acc = acc"
      using False by (rule second_walk_stop)
    ultimately show ?thesis by simp
  qed
qed

lemma on_grid_prev_day_close: "on_grid tz (prev_day_close tz t)"
  using on_grid_local_timestamp [of 54000 tz]
  by (simp add: prev_day_close_def afternoon_end_def)

lemma second_step_agrees:
  assumes "aligned tz c" and "0 \<le> c"
  shows "aligned tz (move_back (jump_to_time tz) tz c)
       \<and> second_walk tz dat cp (move_back (jump_to_time2 tz) tz c) r acc
           = second_walk tz dat cp (move_back (jump_to_time tz) tz c) r acc"
proof (cases "1 < c")
  case False
  then have "move_back (jump_to_time tz) tz c = c - 1" "move_back (jump_to_time2 tz) tz c = c - 1"
    by (simp_all add: move_back_no_jump)
  then show ?thesis
    using False by (simp add: aligned_def)
next
  case True
  then have "on_grid tz c"
    using assms(1) by (simp add: aligned_def)
  then consider
      (plain) "move_back (jump_to_time tz) tz c = c - 1"
        "move_back (jump_to_time2 tz) tz c = c - 1" "on_grid tz (c - 1)"
    | (night) "move_back (jump_to_time tz) tz c = prev_day_close tz (c - 1)"
        "move_back (jump_to_time2 tz) tz c = prev_day_close tz (c - 1)"
    | (midday) n :: nat where "n < 5400"
        "c - 1 = local_timestamp tz (local_day tz c) (41400 + of_nat n)"
        "move_back (jump_to_time tz) tz c = local_timestamp tz (local_day tz c) 41400"
        "move_back (jump_to_time2 tz) tz c = c - 1"
    using step_cases [OF _ True, of tz] by blast
  then show ?thesis
  proof cases
    case plain
    then show ?thesis by (simp add: aligned_def)
  next
    case night
    then show ?thesis by (simp add: aligned_def on_grid_prev_day_close)
  next
    case midday
    have "on_grid tz (local_timestamp tz (local_day tz c) (of_int 41400))"
      by (rule on_grid_local_timestamp) simp_all
    then have "aligned tz (move_back (jump_to_time tz) tz c)"
      using midday(3) by (simp add: aligned_def)
    then show ?thesis
      using midday second_walk_midday_skip [OF midday(1)] by simp
  qed
qed

lemma budget_walk_step:
  "0 \<le> c \<Longrightarrow> 0 < r \<Longrightarrow>
   budget_walk tz dat cp c r acc =
     budget_walk tz dat cp (move_back (jump_to_time tz) tz c)
       (if is_trading_time tz c then r - 1 else r) (accumulate tz dat cp c acc)"
  by (subst budget_walk.simps) simp

lemma budget_walk_stop:
  "\<not> (0 \<le> c \<and> 0 < r) \<Longrightarrow> budget_walk tz dat cp c r acc = acc"
  by (subst budget_walk.simps) (rule if_not_P)

lemma second_walk_eq_budget_walk:
  "aligned tz c \<Longrightarrow> second_walk tz dat cp c r acc = budget_walk tz dat cp c r acc"
proof (induction tz dat cp c r acc rule: budget_walk.induct)
  case (1 tz dat cp c r acc)
  show ?case
  proof (cases "0 \<le> c \<and> 0 < r")
    case False
    then show ?thesis
      by (simp add: second_walk_stop budget_walk_stop)
  next
    case True
    let ?r = "if is_trading_time tz c then r - 1 else r"
    let ?acc = "accumulate tz dat cp c acc"
    have agree: "aligned tz (move_back (jump_to_time tz) tz c)"
        "second_walk tz dat cp (move_back (jump_to_time2 tz) tz c) ?r ?acc
           = second_walk tz dat cp (move_back (jump_to_time tz) tz c) ?r ?acc"
      using second_step_agrees [OF "1.prems", of dat cp ?r ?acc] True by simp_all
    have "second_walk tz dat cp c r acc
        = second_walk tz dat cp (move_back (jump_to_time2 tz) tz c) ?r ?acc"
      using True by (simp add: second_walk_step)
    also have "\<dots> = second_walk tz dat cp (move_back (jump_to_time tz) tz c) ?r ?acc"
      by (rule agree(2))
    also have "\<dots> = budget_walk tz dat cp (move_back (jump_to_time tz) tz c) ?r ?acc"
      using True agree(1) by (intro "1.IH") simp_all
    also have "\<dots> = budget_walk tz dat cp c r acc"
      using True by (simp add: budget_walk_step)
    finally show ?thesis .
  qed
qed

lemma second_walk_end_step:
  "0 \<le> c \<Longrightarrow> 0 < r \<Longrightarrow>
   second_walk_end tz dat cp c r acc =
     second_walk_end tz dat cp (move_back (jump_to_time2 tz) tz c)
       (if is_trading_time tz c then r - 1 else r) (accumulate tz dat cp c acc)"
  by (subst second_walk_end.simps) simp

lemma second_walk_end_stop:
  "\<not> (0 \<le> c \<and> 0 < r) \<Longrightarrow> second_walk_end tz dat cp c r acc = (c, r, acc)"
  by (subst second_walk_end.simps) (rule if_not_P)

lemma second_walk_end_exit:
  "(fst (second_walk_end tz dat cp c r acc) < 0
      \<or> fst (snd (second_walk_end tz dat cp c r acc)) \<le> 0)
   \<and> snd (snd (second_walk_end tz dat cp c r acc)) = second_walk tz dat cp c r acc"
proof (induction tz dat cp c r acc rule: second_walk_end.induct)
  case (1 tz dat cp c r acc)
  show ?case
  proof (cases "0 \<le> c \<and> 0 < r")
    case True
    then show ?thesis
      using "1.IH" by (simp add: second_walk_end_step second_walk_step)
  next
    case False
    have "second_walk_end tz dat cp c r acc = (c, r, acc)"
      using False by (rule second_walk_end_stop)
    moreover have "second_walk tz dat cp c r acc = acc"
      using False by (rule second_walk_stop)
    ultimately show ?thesis
      using False by auto
  qed
qed

lemma session_labels_agree:
  assumes "in_afternoon_session tz now \<or> hour tz now < 12"
  shows "is_afternoon_session tz now = in_afternoon_session tz now"
proof (cases "hour tz now < 12")
  case True
  then have "time_of_day tz now < 43200"
    by (simp add: hour_lt_iff)
  then have "\<not> in_afternoon_session tz now"
    by (simp add: in_afternoon_session_def afternoon_start_def)
  then show ?thesis
    using True by (simp add: is_afternoon_session_def)
next
  case False
  then show ?thesis
    using assms by (simp add: is_afternoon_session_def)
qed

text \<open>
  C4, as stated, fails in three places.  The trigger: after an \<open>Update\<close> at 12:00:00 on
  Friday 2025-04-04 (UTC+8), outside both sessions, with a sample at 11:29:50 and window
  10, the continuation runs and \<open>GetSMA\<close> returns 100, where the algorithm with the
  Afternoon-session trigger returns 0.  The jump logic: from the cursor 13:00:00 the first
  loop moves to 11:30:00, the second loop to 12:59:59.  The stop rule: after a single
  \<open>Update\<close> at 13:00:05 with window 10 the first walk counts 1 point, and the second walk,
  started at 11:30:00 with the budget 9, exits at the cursor 11:29:51 with the budget used
  up and no point added.
\<close>

theorem C4_counterexample:
  "\<not> in_afternoon_session 28800 1743739200
   \<and> Updates (init 10 10) [(1743737390, 100), (1743739200, 200)]
       = Inr \<lparr>num_bin = 10, window = 10, data = [(1743737390, 100), (1743739200, 200)],
             current_timestamp = Some 1743739200\<rparr>
   \<and> GetSMA 28800 \<lparr>num_bin = 10, window = 10, data = [(1743737390, 100), (1743739200, 200)],
             current_timestamp = Some 1743739200\<rparr> = 100
   \<and> compute_with in_afternoon_session 28800
         \<lparr>num_bin = 10, window = 10, data = [(1743737390, 100), (1743739200, 200)],
             current_timestamp = Some 1743739200\<rparr> = 0
   \<and> move_back (jump_to_time 28800) 28800 1743742800 = 1743737400
   \<and> move_back (jump_to_time2 28800) 28800 1743742800 = 1743742799
   \<and> primary_walk 28800 [(1743742805, 200)] 200 (1743742805 - 10) 1743742805 (0, 0) = (200, 1)
   \<and> second_walk_end 28800 [(1743742805, 200)] 200 1743737400 (10 - 1) (200, 1)
       = (1743737391, 0, 200, 1)"
  by code_simp

text \<open>
  C4, amended: for a \<open>now\<close> in the Afternoon session or with local hour below 12 (every
  trading instant is one), after the first walk, when \<open>now\<close> falls in the Afternoon session
  and the count is below the window, a second walk starts at 11:30:00 of that day with
  the same trading test and price resolution; it accumulates what a walk with the jump
  logic of the first walk accumulates, its budget \<open>window - count\<close> is spent on the
  trading instants it visits, and it exits with the budget used up or the cursor below 0;
  the continuation runs only under that trigger.
\<close>

theorem C4_continuation:
  assumes "current_timestamp st = Some now"
    and "in_afternoon_session tz now \<or> hour tz now < 12"
  shows "GetSMA tz st = compute_with in_afternoon_session tz st
       \<and> (fst (second_walk_end tz dat cp c r acc) < 0
            \<or> fst (snd (second_walk_end tz dat cp c r acc)) \<le> 0)
       \<and> snd (snd (second_walk_end tz dat cp c r acc)) = second_walk tz dat cp c r acc"
proof -
  have "on_grid tz (local_timestamp tz d (of_int 41400))" for d
    by (rule on_grid_local_timestamp) simp_all
  then have "aligned tz (local_timestamp tz d morning_end)" for d
    by (simp add: aligned_def morning_end_def)
  then have "second_walk tz dat cp (local_timestamp tz d morning_end) r acc
      = budget_walk tz dat cp (local_timestamp tz d morning_end) r acc" for dat cp d r acc
    by (rule second_walk_eq_budget_walk)
  then have "GetSMA tz st = compute_with in_afternoon_session tz st"
    using assms(1) session_labels_agree [OF assms(2)]
    by (simp add: GetSMA_def compute_with_def continue_walk_def Let_def)
  then show ?thesis
    using second_walk_end_exit [of tz dat cp c r acc] by simp
qed

theorem C4_continuation_witness:
  "in_afternoon_session 28800 1743742805
   \<and> GetSMA 28800 \<lparr>num_bin = 10, window = 10,
        data = [(1743737340, 100), (1743742805, 200)],
        current_timestamp = Some 1743742805\<rparr>
     = compute_with in_afternoon_session 28800 \<lparr>num_bin = 10, window = 10,
        data = [(1743737340, 100), (1743742805, 200)],
        current_timestamp = Some 1743742805\<rparr>"
proof -
  have h: "in_afternoon_session 28800 1743742805" by code_simp
  show ?thesis
    using h C4_continuation [of "\<lparr>num_bin = 10, window = 10,
        data = [(1743737340, 100), (1743742805, 200)],
        current_timestamp = Some 1743742805\<rparr>" 1743742805 28800]
    by simp
qed

section \<open>The first walk and the trailing window\<close>

lemma local_day_mono: "x \<le> y \<Longrightarrow> local_day tz x \<le> local_day tz y"
  unfolding local_day_def by (intro floor_mono divide_right_mono) simp_all

lemma not_trading_weekend: "5 \<le> weekday (local_day tz x) \<Longrightarrow> \<not> is_trading_time tz x"
  by (simp add: is_trading_time_def)

lemma not_trading_early: "time_of_day tz x < 34200 \<Longrightarrow> \<not> is_trading_time tz x"
  by (simp add: is_trading_time_def morning_start_def afternoon_start_def)

lemma not_trading_late: "54000 < time_of_day tz x \<Longrightarrow> \<not> is_trading_time tz x"
  by (simp add: is_trading_time_def morning_end_def afternoon_end_def)

lemma not_trading_midday:
  "41400 < time_of_day tz x \<Longrightarrow> time_of_day tz x < 46800 \<Longrightarrow> \<not> is_trading_time tz x"
  by (simp add: is_trading_time_def morning_end_def afternoon_start_def)

lemma between_same_day:
  assumes "local_timestamp tz d a < x" and "x \<le> local_timestamp tz d b"
    and "0 \<le> a" and "b < 86400"
  shows "local_day tz x = d" and "a < time_of_day tz x" and "time_of_day tz x \<le> b"
proof -
  define sx where "sx = x + of_int tz - of_int (d * 86400)"
  have x: "x = local_timestamp tz d sx"
    by (simp add: sx_def local_timestamp_def)
  have sx: "a < sx" "sx \<le> b"
    using assms(1,2) unfolding x by (simp_all add: local_timestamp_less_iff local_timestamp_le_iff)
  then have rng: "0 \<le> sx" "sx < 86400"
    using assms(3,4) by simp_all
  show "local_day tz x = d"
    unfolding x using rng by (rule local_day_local_timestamp)
  have "time_of_day tz x = sx"
    unfolding x using rng by (rule time_of_day_local_timestamp)
  then show "a < time_of_day tz x" "time_of_day tz x \<le> b"
    using sx by simp_all
qed

lemma pred_same_day:
  assumes "1 \<le> time_of_day tz c"
  shows "local_day tz (c - 1) = local_day tz c"
    and "time_of_day tz (c - 1) = time_of_day tz c - 1"
proof -
  have c1: "c - 1 = local_timestamp tz (local_day tz c) (time_of_day tz c - 1)"
    using local_timestamp_split [of tz c] by (simp add: local_timestamp_def)
  have rng: "0 \<le> time_of_day tz c - 1" "time_of_day tz c - 1 < 86400"
    using assms time_of_day_less [of tz c] by simp_all
  show "local_day tz (c - 1) = local_day tz c"
    by (subst c1) (rule local_day_local_timestamp [OF rng])
  show "time_of_day tz (c - 1) = time_of_day tz c - 1"
    by (subst c1) (rule time_of_day_local_timestamp [OF rng])
qed

lemma overnight_not_trading:
  assumes "local_timestamp tz (skip_weekend (d - 1)) 54000 < x"
    and "x \<le> local_timestamp tz d s" and "0 \<le> s" and "s < 86400"
    and "s < 34200 \<or> 5 \<le> weekday d"
  shows "\<not> is_trading_time tz x"
proof -
  define P where "P = skip_weekend (d - 1)"
  define dx where "dx = local_day tz x"
  have x: "x = local_timestamp tz dx (time_of_day tz x)"
    by (simp add: dx_def local_timestamp_split)
  have "local_day tz x \<le> local_day tz (local_timestamp tz d s)"
    using assms(2) by (rule local_day_mono)
  then have le_d: "dx \<le> d"
    using assms(3,4) by (simp add: dx_def local_day_local_timestamp)
  have "local_day tz (local_timestamp tz P 54000) \<le> local_day tz x"
    using assms(1) unfolding P_def by (intro local_day_mono) simp
  then have ge_P: "P \<le> dx"
    by (simp add: dx_def local_day_local_timestamp)
  consider "dx = P" | "P < dx" "dx \<le> d - 1" | "dx = d"
    using le_d ge_P by linarith
  then show ?thesis
  proof cases
    case 1
    have "local_timestamp tz P 54000 < local_timestamp tz P (time_of_day tz x)"
      using assms(1) x 1 by (simp add: P_def)
    then have "54000 < time_of_day tz x"
      by (simp add: local_timestamp_less_iff)
    then show ?thesis by (rule not_trading_late)
  next
    case 2
    then have "5 \<le> weekday dx"
      unfolding P_def by (rule skip_weekend_between)
    then show ?thesis
      unfolding dx_def by (rule not_trading_weekend)
  next
    case 3
    show ?thesis
    proof (cases "5 \<le> weekday d")
      case True
      then show ?thesis
        using 3 unfolding dx_def by (intro not_trading_weekend) simp
    next
      case False
      have "local_timestamp tz d (time_of_day tz x) \<le> local_timestamp tz d s"
        using assms(2) x 3 by simp
      then have "time_of_day tz x \<le> s"
        by (simp add: local_timestamp_le_iff)
      then have "time_of_day tz x < 34200"
        using assms(5) False by simp
      then show ?thesis by (rule not_trading_early)
    qed
  qed
qed

lemma midday_interval_not_trading:
  assumes "local_timestamp tz d 41400 < x" and "x \<le> local_timestamp tz d s" and "s < 46800"
  shows "\<not> is_trading_time tz x"
proof -
  have "41400 < time_of_day tz x" "time_of_day tz x \<le> s"
    using between_same_day [OF assms(1,2)] assms(3) by simp_all
  then show ?thesis
    using assms(3) by (intro not_trading_midday) simp_all
qed

lemma whole_second_local_timestamp:
  "0 \<le> k \<Longrightarrow> k < 86400 \<Longrightarrow> whole_second tz (local_timestamp tz d (of_int k))"
  by (simp add: whole_second_def time_of_day_local_timestamp)

lemma prev_day_close_facts:
  "whole_second tz (prev_day_close tz t)" "in_walk_range tz (prev_day_close tz t)"
  "time_of_day tz (prev_day_close tz t) = 54000"
proof -
  have tod: "time_of_day tz (prev_day_close tz t) = 54000"
    by (simp add: prev_day_close_def afternoon_end_def time_of_day_local_timestamp)
  then show "time_of_day tz (prev_day_close tz t) = 54000" .
  show "whole_second tz (prev_day_close tz t)"
    using whole_second_local_timestamp [of 54000 tz]
    by (simp add: prev_day_close_def afternoon_end_def)
  show "in_walk_range tz (prev_day_close tz t)"
    by (simp add: in_walk_range_def tod)
qed

lemma morning_close_facts:
  "whole_second tz (local_timestamp tz d 41400)" "in_walk_range tz (local_timestamp tz d 41400)"
proof -
  show "whole_second tz (local_timestamp tz d 41400)"
    using whole_second_local_timestamp [of 41400 tz d] by simp
  show "in_walk_range tz (local_timestamp tz d 41400)"
    by (simp add: in_walk_range_def time_of_day_local_timestamp)
qed

lemma walk_step:
  assumes "in_walk_range tz c" and "1 < c"
  shows "(move_back (jump_to_time tz) tz c = c - 1 \<and> in_walk_range tz (c - 1)
          \<and> time_of_day tz (c - 1) = time_of_day tz c - 1
          \<and> local_day tz (c - 1) = local_day tz c)
       \<or> (move_back (jump_to_time tz) tz c < c - 1
          \<and> whole_second tz (move_back (jump_to_time tz) tz c)
          \<and> in_walk_range tz (move_back (jump_to_time tz) tz c)
          \<and> (\<forall>x. move_back (jump_to_time tz) tz c < x \<and> x \<le> c - 1 \<longrightarrow> \<not> is_trading_time tz x)
          \<and> (whole_second tz c \<or> move_back (jump_to_time tz) tz c = next_close tz c))"
proof -
  define d where "d = local_day tz c"
  define s where "s = time_of_day tz c"
  have s: "1 \<le> s" "s \<le> 54001"
    using assms(1) by (simp_all add: in_walk_range_def s_def)
  have day1: "local_day tz (c - 1) = d" and tod1: "time_of_day tz (c - 1) = s - 1"
    using pred_same_day [of tz c] s(1) by (simp_all add: d_def s_def)
  have c1: "c - 1 = local_timestamp tz d (s - 1)"
    using local_timestamp_split [of tz "c - 1"] by (simp add: day1 tod1)
  have pos1: "0 < c - 1"
    using assms(2) by simp
  have pdc: "prev_day_close tz (c - 1) = prev_day_close tz c"
    by (simp add: prev_day_close_def day1 d_def)
  have pdc_eq: "prev_day_close tz (c - 1) = local_timestamp tz (skip_weekend (d - 1)) 54000"
    by (simp add: prev_day_close_def day1 afternoon_end_def)
  let ?mb = "move_back (jump_to_time tz) tz c"
  have plain: "?mb = c - 1 \<Longrightarrow> 32400 \<le> s - 1 \<Longrightarrow> ?thesis"
    using s tod1 day1 by (simp add: in_walk_range_def d_def s_def)
  have night_jump: ?thesis
    if nt: "\<not> is_trading_time tz (c - 1)"
      and j: "jump_to_time tz (c - 1) = Some (prev_day_close tz (c - 1))"
      and ok: "s - 1 < 34200 \<or> 5 \<le> weekday d"
      and nc: "whole_second tz c \<or> prev_day_close tz c = next_close tz c"
  proof -
    have mb: "?mb = prev_day_close tz (c - 1)"
      using nt pos1 j prev_day_close_less [of tz "c - 1"] by (simp add: move_back_jump)
    have "\<not> is_trading_time tz x" if "?mb < x" "x \<le> c - 1" for x
    proof (rule overnight_not_trading [of tz d x "s - 1"])
      show "local_timestamp tz (skip_weekend (d - 1)) 54000 < x"
        using that(1) mb pdc_eq by simp
      show "x \<le> local_timestamp tz d (s - 1)"
        using that(2) c1 by simp
      show "0 \<le> s - 1" "s - 1 < 86400" "s - 1 < 34200 \<or> 5 \<le> weekday d"
        using s ok by simp_all
    qed
    then show ?thesis
      using mb prev_day_close_less [of tz "c - 1"] prev_day_close_facts(1,2) [of tz "c - 1"]
        nc pdc
      by auto
  qed
  have h_lt: "hour tz (c - 1) < n \<longleftrightarrow> s - 1 < of_int n * 3600" for n
    by (simp add: hour_lt_iff tod1)
  have h_ge: "n \<le> hour tz (c - 1) \<longleftrightarrow> of_int n * 3600 \<le> s - 1" for n
    by (simp add: hour_ge_iff tod1)
  show ?thesis
  proof (cases "is_trading_time tz (c - 1)")
    case True
    then have "34200 \<le> s - 1"
      using not_trading_early [of tz "c - 1"] tod1 by force
    then show ?thesis
      using True by (intro plain) (simp_all add: move_back_no_jump)
  next
    case nt: False
    consider (night) "s - 1 < 32400" | (midday) "41400 < s - 1" "s - 1 < 46800"
      | (close) "s - 1 = 54000"
      | (other) "32400 \<le> s - 1" "s - 1 \<le> 41400 \<or> 46800 \<le> s - 1" "s - 1 < 54000"
      using s by linarith
    then show ?thesis
    proof cases
      case night
      have "jump_to_time tz (c - 1) = Some (prev_day_close tz (c - 1))"
        using night by (simp add: jump_to_time_def h_lt h_ge)
      moreover have "prev_day_close tz c = next_close tz c"
        using night by (simp add: next_close_def s_def [symmetric] pdc)
      ultimately show ?thesis
        using nt night by (intro night_jump) simp_all
    next
      case close
      have "jump_to_time tz (c - 1) = Some (prev_day_close tz (c - 1))"
        using close by (simp add: jump_to_time_def h_lt h_ge)
      moreover have "5 \<le> weekday d"
        using nt close tod1 day1
        by (simp add: is_trading_time_def afternoon_start_def afternoon_end_def split: if_splits)
      moreover have "whole_second tz c"
        using close by (simp add: whole_second_def s_def [symmetric])
      ultimately show ?thesis
        using nt by (intro night_jump) simp_all
    next
      case midday
      have j: "jump_to_time tz (c - 1) = Some (local_timestamp tz d morning_end)"
        using midday by (simp add: jump_to_time_def h_lt h_ge day1)
      have lt: "local_timestamp tz d morning_end < c - 1"
        unfolding c1 using midday by (simp add: local_timestamp_less_iff morning_end_def)
      have mb: "?mb = local_timestamp tz d 41400"
        using nt pos1 j lt by (simp add: move_back_jump morning_end_def)
      have "\<not> is_trading_time tz x" if "?mb < x" "x \<le> c - 1" for x
        using that midday(2) unfolding mb c1 by (rule midday_interval_not_trading)
      moreover have "?mb = next_close tz c"
        using midday s mb by (simp add: next_close_def s_def [symmetric] d_def morning_end_def)
      moreover have "?mb < c - 1"
        using lt mb by (simp add: morning_end_def)
      ultimately show ?thesis
        using mb morning_close_facts [of tz d] by auto
    next
      case other
      have "?mb = c - 1"
      proof (cases "39600 \<le> s - 1 \<and> s - 1 \<le> 41400")
        case True
        then have j: "jump_to_time tz (c - 1) = Some (local_timestamp tz d morning_end)"
          by (simp add: jump_to_time_def h_lt h_ge day1)
        have "\<not> local_timestamp tz d morning_end < c - 1"
          unfolding c1 using True by (simp add: local_timestamp_less_iff morning_end_def)
        then show ?thesis
          using nt pos1 j by (simp add: move_back_jump)
      next
        case False
        then have "jump_to_time tz (c - 1) = None"
          using other by (auto simp: jump_to_time_def h_lt h_ge)
        then show ?thesis
          by (simp add: move_back_no_jump)
      qed
      then show ?thesis
        using other(1) by (rule plain)
    qed
  qed
qed


lemma sweep_skip:
  "(\<forall>i<m. \<not> is_trading_time tz (c - of_nat i)) \<Longrightarrow>
   sweep tz dat cp n c acc = sweep tz dat cp (n - m) (c - of_nat m) acc"
proof (induction m arbitrary: n c)
  case 0
  then show ?case by simp
next
  case (Suc m)
  show ?case
  proof (cases n)
    case 0
    then show ?thesis by simp
  next
    case (Suc n')
    have "\<not> is_trading_time tz c"
      using Suc.prems by force
    then have "sweep tz dat cp n c acc = sweep tz dat cp n' (c - 1) acc"
      using Suc by (simp add: accumulate_not_trading)
    also have "\<dots> = sweep tz dat cp (n' - m) (c - 1 - of_nat m) acc"
    proof (rule Suc.IH)
      show "\<forall>i<m. \<not> is_trading_time tz (c - 1 - of_nat i)"
      proof (intro allI impI)
        fix i assume "i < m"
        then have "\<not> is_trading_time tz (c - of_nat (Suc i))"
          using Suc.prems by blast
        then show "\<not> is_trading_time tz (c - 1 - of_nat i)"
          by (simp add: algebra_simps)
      qed
    qed
    finally show ?thesis
      using Suc by (simp add: algebra_simps)
  qed
qed

lemma prev_day_close_before_day:
  assumes "0 \<le> s"
  shows "prev_day_close tz c < local_timestamp tz (local_day tz c) s"
proof -
  obtain P where P: "P < local_day tz c" "prev_day_close tz c = local_timestamp tz P afternoon_end"
    using prev_day_close_props [of tz c] by blast
  have "of_int (P + 1) \<le> (of_int (local_day tz c) :: rat)"
    using P(1) by simp
  then have "(of_int P + 1) * 86400 \<le> (of_int (local_day tz c) :: rat) * 86400"
    by simp
  then have "of_int P * 86400 + 54000 < (of_int (local_day tz c) :: rat) * 86400 + s"
    using assms by (simp add: algebra_simps)
  then show ?thesis
    by (simp add: P(2) local_timestamp_def afternoon_end_def)
qed

lemma next_close_pred:
  assumes "in_walk_range tz c" and "in_walk_range tz (c - 1)" and "next_close tz c < ws"
  shows "next_close tz (c - 1) < ws"
proof -
  have c: "1 \<le> time_of_day tz c" "time_of_day tz c \<le> 54001"
    and c1: "1 \<le> time_of_day tz (c - 1)"
    using assms(1,2) by (simp_all add: in_walk_range_def)
  have tod: "time_of_day tz (c - 1) = time_of_day tz c - 1"
    and day: "local_day tz (c - 1) = local_day tz c"
    using pred_same_day [OF c(1)] by simp_all
  have "local_day tz (c - 2) = local_day tz c"
    using pred_same_day(1) [OF c1] day by simp
  then have pdc: "prev_day_close tz (c - 2) = prev_day_close tz (c - 1)"
    by (simp add: prev_day_close_def day)
  have below: "prev_day_close tz (c - 1) < local_timestamp tz (local_day tz c) morning_end"
    using prev_day_close_before_day [of morning_end tz "c - 1"]
    by (simp add: morning_end_def day)
  have "next_close tz (c - 1) \<le> next_close tz c"
    using below c(2) by (simp add: next_close_def tod day pdc)
  then show ?thesis
    using assms(3) by simp
qed

lemma whole_second_iff: "whole_second tz c \<longleftrightarrow> c \<in> \<int>"
proof -
  have tod: "time_of_day tz c = c + of_int (tz - local_day tz c * 86400)"
    by (simp add: time_of_day_def)
  have c: "c = time_of_day tz c - of_int (tz - local_day tz c * 86400)"
    by (simp add: time_of_day_def)
  show ?thesis
  proof
    assume "whole_second tz c"
    then have "time_of_day tz c \<in> \<int>"
      unfolding whole_second_def by (metis Ints_of_int)
    then show "c \<in> \<int>"
      by (subst c) (intro Ints_diff Ints_of_int)
  next
    assume "c \<in> \<int>"
    then have "time_of_day tz c \<in> \<int>"
      by (subst tod) (intro Ints_add Ints_of_int)
    then show "whole_second tz c"
      unfolding whole_second_def by (rule of_int_floor)
  qed
qed

lemma whole_second_pred: "whole_second tz c \<Longrightarrow> whole_second tz (c - 1)"
  by (simp add: whole_second_iff)

lemma whole_second_diff:
  assumes "whole_second tz a" and "whole_second tz b" and "b \<le> a"
  shows "\<exists>m::nat. a - b = of_nat m"
proof -
  have "a - b \<in> \<int>"
    using assms(1,2) by (simp add: whole_second_iff)
  then obtain k :: int where eq: "a - b = of_int k"
    by (rule Ints_cases)
  then have "(0::rat) \<le> of_int k"
    using assms(3) by simp
  then have "0 \<le> k"
    by (simp only: of_int_0_le_iff)
  then have "a - b = of_nat (nat k)"
    using eq by simp
  then show ?thesis ..
qed

lemma walk_step_late:
  assumes "\<not> in_walk_range tz c" and "1 < c"
  shows "move_back (jump_to_time tz) tz c = prev_day_close tz (c - 1)"
    and "\<forall>x. local_timestamp tz (local_day tz (c - 1)) 54000 < x \<and> x \<le> c - 1
           \<longrightarrow> \<not> is_trading_time tz x"
    and "5 \<le> weekday (local_day tz (c - 1)) \<Longrightarrow>
         \<forall>x. prev_day_close tz (c - 1) < x \<and> x \<le> c - 1 \<longrightarrow> \<not> is_trading_time tz x"
proof -
  define d1 where "d1 = local_day tz (c - 1)"
  define s1 where "s1 = time_of_day tz (c - 1)"
  have late: "54000 < s1"
  proof (cases "1 \<le> time_of_day tz c")
    case True
    then have "54001 < time_of_day tz c"
      using assms(1) by (simp add: in_walk_range_def)
    then show ?thesis
      using pred_same_day(2) [OF True] by (simp add: s1_def)
  next
    case False
    have "c - 1 = local_timestamp tz (local_day tz c - 1) (time_of_day tz c + 86399)"
      using local_timestamp_split [of tz c] by (simp add: local_timestamp_def algebra_simps)
    moreover have "0 \<le> time_of_day tz c + 86399" "time_of_day tz c + 86399 < 86400"
      using False time_of_day_ge [of tz c] by simp_all
    ultimately have "s1 = time_of_day tz c + 86399"
      unfolding s1_def by (simp add: time_of_day_local_timestamp)
    then show ?thesis
      using time_of_day_ge [of tz c] by simp
  qed
  have s1: "0 \<le> s1" "s1 < 86400"
    using time_of_day_ge [of tz "c - 1"] time_of_day_less [of tz "c - 1"] by (simp_all add: s1_def)
  have c1: "c - 1 = local_timestamp tz d1 s1"
    by (simp add: d1_def s1_def local_timestamp_split)
  have nt: "\<not> is_trading_time tz (c - 1)"
    using late unfolding s1_def by (rule not_trading_late)
  have "jump_to_time tz (c - 1) = Some (prev_day_close tz (c - 1))"
    using late by (simp add: jump_to_time_def hour_lt_iff hour_ge_iff s1_def [symmetric])
  then show "move_back (jump_to_time tz) tz c = prev_day_close tz (c - 1)"
    using nt assms(2) prev_day_close_less [of tz "c - 1"] by (simp add: move_back_jump)
  show "\<forall>x. local_timestamp tz (local_day tz (c - 1)) 54000 < x \<and> x \<le> c - 1
      \<longrightarrow> \<not> is_trading_time tz x"
  proof (intro allI impI, elim conjE)
    fix x assume a: "local_timestamp tz (local_day tz (c - 1)) 54000 < x" and b: "x \<le> c - 1"
    have "local_timestamp tz d1 54000 < x"
      using a by (simp only: d1_def)
    moreover have "x \<le> local_timestamp tz d1 s1"
      using b by (simp only: c1 [symmetric])
    ultimately have "54000 < time_of_day tz x"
      by (rule between_same_day(2)) (simp_all add: s1)
    then show "\<not> is_trading_time tz x"
      by (rule not_trading_late)
  qed
  show "\<forall>x. prev_day_close tz (c - 1) < x \<and> x \<le> c - 1 \<longrightarrow> \<not> is_trading_time tz x"
    if "5 \<le> weekday (local_day tz (c - 1))"
  proof (intro allI impI, elim conjE)
    fix x assume x: "prev_day_close tz (c - 1) < x" "x \<le> c - 1"
    show "\<not> is_trading_time tz x"
    proof (rule overnight_not_trading [of tz d1 x s1])
      show "local_timestamp tz (skip_weekend (d1 - 1)) 54000 < x"
        using x(1) by (simp add: prev_day_close_def d1_def afternoon_end_def)
      show "x \<le> local_timestamp tz d1 s1"
        using x(2) unfolding c1 [symmetric] .
      show "0 \<le> s1" "s1 < 86400" "s1 < 34200 \<or> 5 \<le> weekday d1"
        using s1 that by (simp_all add: d1_def)
    qed
  qed
qed

lemma walk_inv_step:
  assumes "walk_inv tz ws c" and "0 \<le> c"
  shows "(\<exists>m. move_back (jump_to_time tz) tz c = c - 1 - of_nat m
            \<and> (\<forall>i<m. \<not> is_trading_time tz (c - 1 - of_nat i))
            \<and> walk_inv tz ws (move_back (jump_to_time tz) tz c))
       \<or> (move_back (jump_to_time tz) tz c < ws
          \<and> (\<forall>x. ws \<le> x \<and> x \<le> c - 1 \<longrightarrow> \<not> is_trading_time tz x))"
proof (cases "1 < c")
  case False
  then have "move_back (jump_to_time tz) tz c = c - 1 - of_nat 0"
    by (simp add: move_back_no_jump)
  moreover have "walk_inv tz ws (c - 1)"
    using False by (simp add: walk_inv_def)
  ultimately show ?thesis
    by (intro disjI1 exI [of _ 0]) simp
next
  case True
  let ?mb = "move_back (jump_to_time tz) tz c"
  have safe: "first_jump_safe tz ws c" and grid: "whole_second tz c \<or> next_close tz c < ws"
    using assms(1) True by (simp_all add: walk_inv_def)
  have on_grid: ?thesis
    if w: "whole_second tz c" and lt: "?mb < c - 1" and wm: "whole_second tz ?mb"
      and rm: "in_walk_range tz ?mb"
      and st: "\<forall>x. ?mb < x \<and> x \<le> c - 1 \<longrightarrow> \<not> is_trading_time tz x"
  proof -
    obtain m :: nat where m: "c - 1 - ?mb = of_nat m"
      using whole_second_diff [OF whole_second_pred [OF w] wm] lt by auto
    then have eq: "?mb = c - 1 - of_nat m"
      by simp
    have "\<not> is_trading_time tz (c - 1 - of_nat i)" if "i < m" for i
    proof -
      have "(of_nat i :: rat) < of_nat m"
        using that by simp
      then have "?mb < c - 1 - of_nat i"
        using eq by linarith
      then show ?thesis
        using st by simp
    qed
    moreover have "walk_inv tz ws ?mb"
      using wm rm by (simp add: walk_inv_def first_jump_safe_def)
    ultimately show ?thesis
      using eq by blast
  qed
  have leave: ?thesis
    if "?mb < ws" and "\<forall>x. ?mb < x \<and> x \<le> c - 1 \<longrightarrow> \<not> is_trading_time tz x"
    using that by force
  show ?thesis
  proof (cases "in_walk_range tz c")
    case rng: True
    consider
        (plain) "?mb = c - 1" "in_walk_range tz (c - 1)"
      | (jump) "?mb < c - 1" "whole_second tz ?mb" "in_walk_range tz ?mb"
          "\<forall>x. ?mb < x \<and> x \<le> c - 1 \<longrightarrow> \<not> is_trading_time tz x"
          "whole_second tz c \<or> ?mb = next_close tz c"
      using walk_step [OF rng True] by blast
    then show ?thesis
    proof cases
      case plain
      have "whole_second tz (c - 1) \<or> next_close tz (c - 1) < ws"
        using grid whole_second_pred [of tz c] next_close_pred [OF rng plain(2)] by blast
      then have "walk_inv tz ws (c - 1)"
        using plain(2) by (simp add: walk_inv_def first_jump_safe_def)
      then show ?thesis
        using plain(1) by (intro disjI1 exI [of _ 0]) simp
    next
      case jump
      show ?thesis
      proof (cases "whole_second tz c")
        case True
        then show ?thesis
          using jump(1-4) by (rule on_grid)
      next
        case False
        then have "?mb < ws"
          using grid jump(5) by auto
        then show ?thesis
          using jump(4) by (rule leave)
      qed
    qed
  next
    case late: False
    have mb: "?mb = prev_day_close tz (c - 1)"
      and after_close: "\<forall>x. local_timestamp tz (local_day tz (c - 1)) 54000 < x \<and> x \<le> c - 1
          \<longrightarrow> \<not> is_trading_time tz x"
      and weekend: "5 \<le> weekday (local_day tz (c - 1)) \<Longrightarrow>
          \<forall>x. ?mb < x \<and> x \<le> c - 1 \<longrightarrow> \<not> is_trading_time tz x"
      using walk_step_late [OF late True] by simp_all
    have nc: "next_close tz c = ?mb"
      using late mb by (auto simp: next_close_def in_walk_range_def)
    show ?thesis
    proof (cases "local_timestamp tz (local_day tz (c - 1)) afternoon_end < ws")
      case True
      have "?mb < local_timestamp tz (local_day tz (c - 1)) afternoon_end"
        unfolding mb by (rule prev_day_close_before_day) (simp add: afternoon_end_def)
      then have "?mb < ws"
        using True by simp
      moreover have "\<forall>x. ws \<le> x \<and> x \<le> c - 1 \<longrightarrow> \<not> is_trading_time tz x"
        using after_close True by (auto simp: afternoon_end_def)
      ultimately show ?thesis by blast
    next
      case False
      then have we: "5 \<le> weekday (local_day tz (c - 1))"
        using safe late by (simp add: first_jump_safe_def)
      show ?thesis
      proof (cases "whole_second tz c")
        case True
        have "?mb < c - 1"
          unfolding mb by (rule prev_day_close_less)
        then show ?thesis
          using True prev_day_close_facts(1,2) [of tz "c - 1"] weekend [OF we]
          by (intro on_grid) (simp_all add: mb)
      next
        case False
        then have "?mb < ws"
          using grid nc by simp
        then show ?thesis
          using weekend [OF we] by (rule leave)
      qed
    qed
  qed
qed

lemma primary_walk_sweep:
  assumes "0 \<le> ws"
  shows "walk_inv tz ws c \<Longrightarrow>
         primary_walk tz dat cp ws c acc = sweep tz dat cp (nat (\<lfloor>c - ws\<rfloor> + 1)) c acc"
  using assms
proof (induction tz dat cp ws c acc rule: primary_walk.induct)
  case (1 tz dat cp ws c acc)
  show ?case
  proof (cases "ws \<le> c \<and> 0 \<le> c")
    case False
    then have "c < ws" using "1.prems"(2) by auto
    then have "(of_int \<lfloor>c - ws\<rfloor> :: rat) < 0"
      using of_int_floor_le [of "c - ws"] by linarith
    then have "\<lfloor>c - ws\<rfloor> < 0" by (simp only: of_int_less_0_iff)
    then have "nat (\<lfloor>c - ws\<rfloor> + 1) = 0" by linarith
    then show ?thesis
      using False by (simp add: primary_walk_stop)
  next
    case True
    let ?acc = "accumulate tz dat cp c acc"
    let ?c' = "move_back (jump_to_time tz) tz c"
    have fl: "0 \<le> \<lfloor>c - ws\<rfloor>" using True by simp
    have step: "primary_walk tz dat cp ws c acc = primary_walk tz dat cp ws ?c' ?acc"
      using True by (simp add: primary_walk_step)
    have suc: "sweep tz dat cp (nat (\<lfloor>c - ws\<rfloor> + 1)) c acc
        = sweep tz dat cp (nat \<lfloor>c - ws\<rfloor>) (c - 1) ?acc"
    proof -
      have "nat (\<lfloor>c - ws\<rfloor> + 1) = Suc (nat \<lfloor>c - ws\<rfloor>)"
        using fl by linarith
      then show ?thesis by simp
    qed
    consider
        (grid) m where "?c' = c - 1 - of_nat m"
          "\<forall>i<m. \<not> is_trading_time tz (c - 1 - of_nat i)" "walk_inv tz ws ?c'"
      | (leave) "?c' < ws" "\<forall>x. ws \<le> x \<and> x \<le> c - 1 \<longrightarrow> \<not> is_trading_time tz x"
      using walk_inv_step [OF "1.prems"(1)] True by blast
    then show ?thesis
    proof cases
      case grid
      have "\<lfloor>?c' - ws\<rfloor> + 1 = \<lfloor>c - ws\<rfloor> - int m"
      proof -
        have "?c' - ws = (c - ws) - of_int (1 + int m)"
          unfolding grid(1) by simp
        then have "\<lfloor>?c' - ws\<rfloor> = \<lfloor>c - ws\<rfloor> - (1 + int m)"
          by (simp only: floor_diff_of_int)
        then show ?thesis by simp
      qed
      then have cnt: "nat (\<lfloor>?c' - ws\<rfloor> + 1) = nat \<lfloor>c - ws\<rfloor> - m"
        using fl by (simp add: nat_diff_distrib')
      have "primary_walk tz dat cp ws ?c' ?acc
          = sweep tz dat cp (nat (\<lfloor>?c' - ws\<rfloor> + 1)) ?c' ?acc"
        using True grid(3) "1.prems"(2) by (intro "1.IH") simp_all
      also have "\<dots> = sweep tz dat cp (nat \<lfloor>c - ws\<rfloor> - m) (c - 1 - of_nat m) ?acc"
        by (subst cnt) (simp only: grid(1))
      also have "\<dots> = sweep tz dat cp (nat \<lfloor>c - ws\<rfloor>) (c - 1) ?acc"
        using grid(2) by (rule sweep_skip [symmetric])
      finally show ?thesis
        using step suc by simp
    next
      case leave
      have "primary_walk tz dat cp ws ?c' ?acc = ?acc"
        using leave(1) by (intro primary_walk_stop) simp
      moreover have "sweep tz dat cp (nat \<lfloor>c - ws\<rfloor>) (c - 1) ?acc = ?acc"
      proof -
        have "\<not> is_trading_time tz (c - 1 - of_nat i)" if "i < nat \<lfloor>c - ws\<rfloor>" for i
        proof -
          have "int i + 1 \<le> \<lfloor>c - ws\<rfloor>"
            using that by linarith
          then have "(of_int (int i + 1) :: rat) \<le> c - ws"
            by (simp only: le_floor_iff)
          then have "ws \<le> c - 1 - of_nat i"
            by simp
          then show ?thesis
            using leave(2) by simp
        qed
        then have "sweep tz dat cp (nat \<lfloor>c - ws\<rfloor>) (c - 1) ?acc
            = sweep tz dat cp (nat \<lfloor>c - ws\<rfloor> - nat \<lfloor>c - ws\<rfloor>)
                (c - 1 - of_nat (nat \<lfloor>c - ws\<rfloor>)) ?acc"
          by (intro sweep_skip) blast
        then show ?thesis by simp
      qed
      ultimately show ?thesis
        using step suc by simp
    qed
  qed
qed

lemma seconds_Suc:
  "map (\<lambda>i. c - of_nat i) [0..<Suc n] = (c::rat) # map (\<lambda>i. (c - 1) - of_nat i) [0..<n]"
proof -
  have "[0..<Suc n] = 0 # map Suc [0..<n]"
    by (simp add: upt_conv_Cons map_Suc_upt del: upt_Suc)
  then have "map (\<lambda>i. c - of_nat i) [0..<Suc n]
      = (c - of_nat 0) # map ((\<lambda>i. c - of_nat i) \<circ> Suc) [0..<n]"
    by (simp del: upt_Suc)
  also have "(\<lambda>i. c - of_nat i) \<circ> Suc = (\<lambda>i. (c - 1) - of_nat i)"
    by (auto simp: fun_eq_iff algebra_simps)
  finally show ?thesis by simp
qed

lemma sweep_sum:
  "sweep tz dat cp n c acc =
     (fst acc + sum_list (filter (\<lambda>p. 0 < p) (map (\<lambda>t. find_price_at_time dat t cp)
        (filter (is_trading_time tz) (map (\<lambda>i. c - of_nat i) [0..<n])))),
      snd acc + length (filter (\<lambda>p. 0 < p) (map (\<lambda>t. find_price_at_time dat t cp)
        (filter (is_trading_time tz) (map (\<lambda>i. c - of_nat i) [0..<n])))))"
proof (induction n arbitrary: c acc)
  case 0
  then show ?case by simp
next
  case (Suc n)
  show ?case
    unfolding seconds_Suc sweep.simps Suc.IH
    by (simp add: accumulate_def Let_def)
qed

lemma exact_match_in: "exact_match dat t = Some p \<Longrightarrow> p \<in> snd ` set dat"
  by (induction dat t rule: exact_match.induct) (auto split: if_splits)

lemma scan_prev_in: "scan_prev sd t prev = Some s \<Longrightarrow> s \<in> set sd \<or> prev = Some s"
  by (induction sd t prev rule: scan_prev.induct) (auto split: if_splits)

lemma find_price_nonneg:
  assumes "\<forall>s \<in> set dat. 0 < snd s" and "dat = [] \<longrightarrow> 0 \<le> fb"
  shows "0 \<le> find_price_at_time dat t fb"
proof (cases "dat = []")
  case True
  then show ?thesis
    using assms(2) by (simp add: find_price_at_time_def)
next
  case False
  show ?thesis
  proof (cases "exact_match dat t")
    case (Some p)
    then have "0 < p"
      using exact_match_in [OF Some] assms(1) by auto
    then show ?thesis
      using False Some by (simp add: find_price_at_time_def)
  next
    case None
    have "0 \<le> (case scan_prev (sort dat) t None of
        Some (prev_ts, prev_price) \<Rightarrow> prev_price | None \<Rightarrow> 0)"
    proof (cases "scan_prev (sort dat) t None")
      case (Some s)
      then have "s \<in> set dat"
        using scan_prev_in [OF Some] by simp
      then have "0 < snd s"
        using assms(1) by blast
      then show ?thesis
        using Some by (simp add: case_prod_beta)
    qed simp
    then show ?thesis
      using False None by (simp add: find_price_at_time_def Let_def)
  qed
qed

lemma window_prices_positive:
  assumes "\<forall>s \<in> set dat. 0 < snd s" and "dat = [] \<longrightarrow> 0 \<le> fb"
  shows "window_prices tz dat fb now w =
     filter (\<lambda>p. 0 < p) (map (\<lambda>t. find_price_at_time dat t fb)
       (filter (is_trading_time tz) (map (\<lambda>i. now - of_nat i) [0..<nat (\<lfloor>w\<rfloor> + 1)])))"
proof -
  have "(p \<noteq> 0) = (0 < p)"
    if mem: "p \<in> set (map (\<lambda>t. find_price_at_time dat t fb) xs)" for p xs
  proof -
    obtain t where "p = find_price_at_time dat t fb"
      using mem by auto
    then have "0 \<le> p"
      using find_price_nonneg [OF assms] by simp
    then show ?thesis by auto
  qed
  then show ?thesis
    unfolding window_prices_def window_seconds_def
    by (intro filter_cong refl) blast
qed


lemma primary_walk_clamp:
  "primary_walk tz dat cp ws c acc = primary_walk tz dat cp (max ws 0) c acc"
proof (induction tz dat cp ws c acc rule: primary_walk.induct)
  case (1 tz dat cp ws c acc)
  show ?case
  proof (cases "ws \<le> c \<and> 0 \<le> c")
    case True
    then have "max ws 0 \<le> c \<and> 0 \<le> c" by simp
    then show ?thesis
      using True "1.IH" by (simp add: primary_walk_step)
  next
    case False
    then have "\<not> (max ws 0 \<le> c \<and> 0 \<le> c)" by auto
    then have "primary_walk tz dat cp (max ws 0) c acc = acc"
      by (rule primary_walk_stop)
    moreover have "primary_walk tz dat cp ws c acc = acc"
      using False by (rule primary_walk_stop)
    ultimately show ?thesis by simp
  qed
qed

lemma walk_inv_mono: "walk_inv tz ws c \<Longrightarrow> ws \<le> ws' \<Longrightarrow> walk_inv tz ws' c"
  by (auto simp: walk_inv_def first_jump_safe_def)

lemma exact_match_far:
  "\<forall>s \<in> set dat. t + 1 / 10 \<le> fst s \<Longrightarrow> exact_match dat t = None"
  by (induction dat t rule: exact_match.induct) auto

lemma find_price_before_all:
  assumes "dat \<noteq> []" and "\<forall>s \<in> set dat. t + 1 / 10 \<le> fst s"
  shows "find_price_at_time dat t fb = 0"
proof -
  have none: "exact_match dat t = None"
    using assms(2) by (rule exact_match_far)
  have "sort dat \<noteq> []"
    using assms(1) by (metis length_0_conv length_sort)
  then have "hd (sort dat) \<in> set (sort dat)"
    by (rule hd_in_set)
  then have "t < fst (hd (sort dat))"
    using assms(2) by fastforce
  then show ?thesis
    using assms(1) none by (simp add: find_price_at_time_def)
qed

lemma second_walk_nothing:
  "(\<forall>x \<le> c. find_price_at_time dat x cp \<le> 0) \<Longrightarrow> second_walk tz dat cp c r acc = acc"
proof (induction tz dat cp c r acc rule: second_walk.induct)
  case (1 tz dat cp c r acc)
  show ?case
  proof (cases "0 \<le> c \<and> 0 < r")
    case False
    then show ?thesis by (rule second_walk_stop)
  next
    case True
    have "\<not> 0 < find_price_at_time dat c cp"
      using "1.prems" by (simp add: not_less)
    then have acc: "accumulate tz dat cp c acc = acc"
      by (simp add: accumulate_def Let_def)
    have "\<forall>x \<le> move_back (jump_to_time2 tz) tz c. find_price_at_time dat x cp \<le> 0"
      using "1.prems" move_back_le [of "jump_to_time2 tz" tz c] by auto
    then have "second_walk tz dat cp (move_back (jump_to_time2 tz) tz c)
        (if is_trading_time tz c then r - 1 else r) (accumulate tz dat cp c acc)
      = accumulate tz dat cp c acc"
      using True by (intro "1.IH") simp_all
    then show ?thesis
      using True acc by (simp add: second_walk_step)
  qed
qed

lemma filter_upt_prefix:
  assumes "n' \<le> n" and "\<forall>i. n' \<le> i \<and> i < n \<longrightarrow> \<not> Q (g i)"
  shows "filter Q (map g [0..<n]) = filter Q (map g [0..<n'])"
proof -
  have "[0..<n] = [0..<n'] @ [n'..<n]"
    using assms(1) by (metis le_add_diff_inverse upt_add_eq_append zero_le)
  moreover have "filter Q (map g [n'..<n]) = []"
    using assms(2) by (auto simp: filter_empty_conv)
  ultimately show ?thesis by simp
qed

lemma window_filter:
  "filter (\<lambda>p. 0 < p) (map f (filter Q xs))
     = map f (filter (\<lambda>t. Q t \<and> 0 < f t) xs)"
  by (induction xs) auto

text \<open>
  C1, as stated, fails in six ways, all on Friday 2025-04-04 at UTC+8 unless noted.
  The continuation: after \<open>Update\<close> at 11:29:00 (100) and 13:00:05 (200) with window 10,
  \<open>Get\<close> is 110 and the window mean 350/3.  The jump after the close: after \<open>Update\<close> at
  14:59:58 and 15:00:03 (both 100), \<open>Get\<close> is 0 and the window mean 100.  A cursor off the
  whole seconds: after \<open>Update\<close> at 11:29:00 (100), 11:30:00 (200) and 11:30:02.5 (300),
  \<open>Get\<close> is 225/2 and the window mean 100.  The epoch (UTC+10): after \<open>Update\<close> at -3 (50)
  and 5 (60), \<open>Get\<close> is 155/3 and the window mean 460/9.  The zero timestamp (UTC+10):
  after \<open>Update\<close> at 0 (100), \<open>Get\<close> is 0 and the window mean 100.  A negative price:
  after \<open>Update\<close> at 09:31:00 (-5), \<open>Get\<close> is 0 and the window mean -5.
\<close>

theorem C1_counterexample:
  "Get 28800 \<lparr>num_bin = 10, window = 10, data = [(1743737340, 100), (1743742805, 200)],
       current_timestamp = Some 1743742805\<rparr> = 110
   \<and> window_mean 28800 [(1743737340, 100), (1743742805, 200)] 200 1743742805 10 = 350 / 3
   \<and> Get 28800 \<lparr>num_bin = 10, window = 10, data = [(1743749998, 100), (1743750003, 100)],
       current_timestamp = Some 1743750003\<rparr> = 0
   \<and> window_mean 28800 [(1743749998, 100), (1743750003, 100)] 100 1743750003 10 = 100
   \<and> Get 28800 \<lparr>num_bin = 10, window = 10,
       data = [(1743737340, 100), (1743737400, 200), (3487474805 / 2, 300)],
       current_timestamp = Some (3487474805 / 2)\<rparr> = 225 / 2
   \<and> window_mean 28800 [(1743737340, 100), (1743737400, 200), (3487474805 / 2, 300)] 300
       (3487474805 / 2) 10 = 100
   \<and> Get 36000 \<lparr>num_bin = 10, window = 10, data = [(- 3, 50), (5, 60)],
       current_timestamp = Some 5\<rparr> = 155 / 3
   \<and> window_mean 36000 [(- 3, 50), (5, 60)] 60 5 10 = 460 / 9
   \<and> Get 36000 \<lparr>num_bin = 10, window = 10, data = [(0, 100)],
       current_timestamp = Some 0\<rparr> = 0
   \<and> window_mean 36000 [(0, 100)] 100 0 10 = 100
   \<and> Get 28800 \<lparr>num_bin = 10, window = 10, data = [(1743730260, - 5)],
       current_timestamp = Some 1743730260\<rparr> = 0
   \<and> window_mean 28800 [(1743730260, - 5)] (- 5) 1743730260 10 = - 5"
  by code_simp

text \<open>
  C1, amended: \<open>Get\<close> returns the arithmetic mean of the resolved prices over exactly the
  trading seconds \<open>now\<close>, \<open>now - 1\<close>, ... of [now - window, now], those resolving to 0
  left out, and 0 when there is none, for every engine state with: a latest \<open>Update\<close>
  timestamp \<open>now\<close> other than 0; a local time of day of \<open>now\<close> in [00:00:01, 15:00:01],
  or the instant \<open>now - 1\<close> on a Saturday or Sunday, or a window that begins after
  15:00:00 of the day of \<open>now - 1\<close>; \<open>now\<close> on a whole second, or a window that begins
  after the session close the walk jumps to first (11:30:00 of the day when the time of
  day is in (11:30:01, 15:00:01], else 15:00:00 of the last day before \<open>now - 1\<close> that is
  not a Saturday or Sunday); no trading second of the window before the epoch resolving
  to a non-zero price;
  positive stored prices; and a continuation that adds nothing (the local hour of \<open>now\<close>
  is below 12, or the window holds at least \<open>window\<close> contributing seconds, or no stored
  sample is earlier than 0.1 s after 11:30:00 of the day of \<open>now\<close>).
\<close>

theorem C1_window_mean:
  assumes "current_timestamp st = Some now" and "now \<noteq> 0"
    and "first_jump_safe tz (now - window st) now"
    and "whole_second tz now \<or> next_close tz now < now - window st"
    and "\<forall>t \<in> set (window_seconds now (window st)).
           0 \<le> t \<or> \<not> is_trading_time tz t
           \<or> find_price_at_time (data st) t
                (if data st = [] then 100 else snd (last (data st))) = 0"
    and "\<forall>s \<in> set (data st). 0 < snd s"
    and "hour tz now < 12
       \<or> window st \<le> of_nat (length (window_prices tz (data st)
            (if data st = [] then 100 else snd (last (data st))) now (window st)))
       \<or> (data st \<noteq> []
          \<and> (\<forall>s \<in> set (data st).
                local_timestamp tz (local_day tz now) morning_end + 1 / 10 \<le> fst s))"
  shows "Get tz st = window_mean tz (data st)
           (if data st = [] then 100 else snd (last (data st))) now (window st)"
proof -
  define fb where "fb = (if data st = [] then 100 else snd (last (data st)))"
  define dat where "dat = data st"
  define w where "w = window st"
  define ps where "ps = window_prices tz dat fb now w"
  define ws where "ws = max (now - w) 0"
  define n where "n = nat (\<lfloor>w\<rfloor> + 1)"
  define n' where "n' = nat (\<lfloor>now - ws\<rfloor> + 1)"
  let ?good = "\<lambda>t. is_trading_time tz t \<and> 0 < find_price_at_time dat t fb"
  let ?sec = "\<lambda>i::nat. now - of_nat i"
  have fb: "dat = [] \<longrightarrow> 0 \<le> fb"
    by (simp add: fb_def dat_def)
  have pos: "\<forall>s \<in> set dat. 0 < snd s"
    using assms(6) by (simp add: dat_def)
  have ps: "ps = map (\<lambda>t. find_price_at_time dat t fb) (filter ?good (map ?sec [0..<n]))"
    unfolding ps_def n_def window_prices_positive [OF pos fb] by (rule window_filter)
  have le: "n' \<le> n"
  proof -
    have "now - ws \<le> w"
      by (simp add: ws_def)
    then have "\<lfloor>now - ws\<rfloor> \<le> \<lfloor>w\<rfloor>"
      by (rule floor_mono)
    then show ?thesis
      by (simp add: n_def n'_def)
  qed
  have out: "\<not> ?good (?sec i)" if i: "n' \<le> i" "i < n" for i
  proof -
    have "\<lfloor>now - ws\<rfloor> + 1 \<le> int i"
      using i(1) unfolding n'_def by linarith
    then have "\<lfloor>now - ws\<rfloor> < int i"
      by simp
    then have "now - ws < of_int (int i)"
      by (simp only: floor_less_iff)
    then have below: "?sec i < ws"
      by simp
    have "int i \<le> \<lfloor>w\<rfloor>"
      using i(2) unfolding n_def by linarith
    then have "(of_int (int i) :: rat) \<le> w"
      by (simp only: le_floor_iff)
    then have "now - w \<le> ?sec i"
      by simp
    then have neg: "?sec i < 0"
      using below unfolding ws_def by (simp add: max_def split: if_splits)
    have "?sec i \<in> set (window_seconds now w)"
      using i(2) by (simp add: window_seconds_def n_def)
    then have "\<not> is_trading_time tz (?sec i) \<or> find_price_at_time dat (?sec i) fb = 0"
      using assms(5) neg unfolding fb_def dat_def w_def by fastforce
    then show ?thesis by auto
  qed
  have ps': "ps = map (\<lambda>t. find_price_at_time dat t fb) (filter ?good (map ?sec [0..<n']))"
    unfolding ps using filter_upt_prefix [OF le, of ?good ?sec] out by simp
  have inv: "walk_inv tz ws now"
  proof -
    have "walk_inv tz (now - w) now"
      using assms(3,4) by (simp add: walk_inv_def w_def)
    moreover have "now - w \<le> ws"
      by (simp add: ws_def)
    ultimately show ?thesis
      by (rule walk_inv_mono)
  qed
  have "primary_walk tz dat fb (now - w) now (0, 0) = primary_walk tz dat fb ws now (0, 0)"
    unfolding ws_def by (rule primary_walk_clamp)
  also have "\<dots> = sweep tz dat fb n' now (0, 0)"
    unfolding n'_def using inv by (intro primary_walk_sweep) (simp_all add: ws_def)
  also have "\<dots> = (sum_list ps, length ps)"
    unfolding ps' by (simp add: sweep_sum window_filter)
  finally have walk: "primary_walk tz dat fb (now - w) now (0, 0) = (sum_list ps, length ps)" .
  have cont: "continue_walk tz dat fb now w (sum_list ps, length ps) = (sum_list ps, length ps)"
  proof -
    consider "hour tz now < 12" | "w \<le> of_nat (length ps)"
      | "dat \<noteq> []" "\<forall>s \<in> set dat.
          local_timestamp tz (local_day tz now) morning_end + 1 / 10 \<le> fst s"
      using assms(7) unfolding ps_def fb_def dat_def w_def by blast
    then show ?thesis
    proof cases
      case 1
      then show ?thesis
        by (simp add: continue_walk_def is_afternoon_session_def)
    next
      case 2
      then show ?thesis
        by (auto simp: continue_walk_def)
    next
      case 3
      have "find_price_at_time dat x fb \<le> 0"
        if "x \<le> local_timestamp tz (local_day tz now) morning_end" for x
      proof -
        have "\<forall>s \<in> set dat. x + 1 / 10 \<le> fst s"
          using 3(2) that by fastforce
        then show ?thesis
          using find_price_before_all [OF 3(1)] by simp
      qed
      then have "second_walk tz dat fb (local_timestamp tz (local_day tz now) morning_end)
          r acc = acc" for r acc
        by (intro second_walk_nothing) blast
      then show ?thesis
        by (simp add: continue_walk_def)
    qed
  qed
  have "GetSMA tz st = sma_of (continue_walk tz dat fb now w
      (primary_walk tz dat fb (now - w) now (0, 0)))"
    using assms(1,2) by (simp add: GetSMA_def Let_def fb_def dat_def w_def)
  then have "GetSMA tz st = sma_of (sum_list ps, length ps)"
    by (simp only: walk cont)
  also have "\<dots> = window_mean tz dat fb now w"
    by (simp add: sma_of_def window_mean_def ps_def [symmetric])
  finally show ?thesis
    by (simp add: Get_def fb_def dat_def w_def)
qed

theorem C1_window_mean_witness:
  "first_jump_safe 28800 (1743730205 - 10) 1743730205 \<and> whole_second 28800 1743730205
   \<and> hour 28800 1743730205 < 12
   \<and> Get 28800 \<lparr>num_bin = 10, window = 10,
        data = [(1743730200, 100), (1743730205, 101)],
        current_timestamp = Some 1743730205\<rparr>
     = window_mean 28800 [(1743730200, 100), (1743730205, 101)] 101 1743730205 10"
proof -
  let ?st = "\<lparr>num_bin = 10, window = 10, data = [(1743730200, 100), (1743730205, 101)],
        current_timestamp = Some (1743730205 :: rat)\<rparr>"
  have h1: "first_jump_safe 28800 (1743730205 - window ?st) 1743730205" by code_simp
  have h2: "whole_second 28800 1743730205" by code_simp
  have h3: "hour 28800 1743730205 < 12" by code_simp
  have h4: "\<forall>t \<in> set (window_seconds 1743730205 (window ?st)).
           0 \<le> t \<or> \<not> is_trading_time 28800 t
           \<or> find_price_at_time (data ?st) t
                (if data ?st = [] then 100 else snd (last (data ?st))) = 0"
    by code_simp
  show ?thesis
    using h1 h2 h3 C1_window_mean [of ?st 1743730205 28800, OF _ _ h1 _ h4]
    by simp
qed

end
